theory Spec2Isabelle
  imports Main "HOL-Library.Sublist"
begin

section \<open>Strings and character classes\<close>

text \<open>
  The program is JavaScript; its strings are modelled as \<^typ>\<open>string\<close>, one \<^typ>\<open>char\<close> per
  code unit, so the model covers texts whose code units are below 256. On that range the
  pattern class \<^verbatim>\<open>\s\<close> holds the characters TAB, LF, VT, FF, CR, SPACE and NBSP, and the
  pattern \<^verbatim>\<open>.\<close> excludes the line terminators LF and CR.
\<close>

definition line_terminator :: "char \<Rightarrow> bool" where
  "line_terminator c = (c = CHR 0x0A \<or> c = CHR 0x0D)"

definition white_space :: "char \<Rightarrow> bool" where
  "white_space c =
     (c = CHR 0x09 \<or> c = CHR 0x0A \<or> c = CHR 0x0B \<or> c = CHR 0x0C \<or> c = CHR 0x0D \<or>
      c = CHR 0x20 \<or> c = CHR 0xA0)"

datatype cset = Lit char | AnyChar | WhiteSp | NonSp | OneOf "char list"

fun cset_has :: "cset \<Rightarrow> char \<Rightarrow> bool" where
  "cset_has (Lit a) c = (c = a)"
| "cset_has AnyChar c = (\<not> line_terminator c)"
| "cset_has WhiteSp c = white_space c"
| "cset_has NonSp c = (\<not> white_space c)"
| "cset_has (OneOf cs) c = (c \<in> set cs)"

section \<open>Backtracking pattern matching\<close>

text \<open>
  The patterns of the source are terms of \<open>regex\<close>: \<open>Sym\<close> one character of a class,
  \<open>Str\<close> a literal text, \<open>Cat\<close> sequence, \<open>Alt\<close> the alternation \<^verbatim>\<open>|\<close>, \<open>Opt\<close> the greedy
  \<^verbatim>\<open>?\<close>, \<open>Star\<close> the greedy \<^verbatim>\<open>*\<close>, \<open>LazyStar\<close> the lazy \<^verbatim>\<open>*?\<close>, \<open>Group n\<close> the n-th capturing
  group and \<open>NotAhead\<close> the negative lookahead \<^verbatim>\<open>(?!...)\<close>.

  \<open>rmatch r c s\<close> lists every way \<open>r\<close> matches at the start of \<open>s\<close>, as the captures and
  the text left over, in the order in which a backtracking matcher tries them: the head
  of the list is the match that the JavaScript engine reports. An iteration of a
  quantifier that consumes nothing is rejected, as the language definition says.
\<close>

datatype regex =
    Sym cset
  | Str string
  | Cat regex regex
  | Alt regex regex
  | Opt regex
  | Star regex
  | LazyStar regex
  | Group nat regex
  | NotAhead regex

type_synonym captures = "(nat \<times> string) list"

fun rmatch :: "regex \<Rightarrow> captures \<Rightarrow> string \<Rightarrow> (captures \<times> string) list" where
  "rmatch (Sym cs) c s =
     (case s of [] \<Rightarrow> [] | x # xs \<Rightarrow> if cset_has cs x then [(c, xs)] else [])"
| "rmatch (Str w) c s = (if prefix w s then [(c, drop (length w) s)] else [])"
| "rmatch (Cat a b) c s = concat (map (\<lambda>(c', s'). rmatch b c' s') (rmatch a c s))"
| "rmatch (Alt a b) c s = rmatch a c s @ rmatch b c s"
| "rmatch (Opt a) c s = filter (\<lambda>(c', s'). length s' < length s) (rmatch a c s) @ [(c, s)]"
| "rmatch (Star a) c s =
     concat (map (\<lambda>(c', s'). if length s' < length s then rmatch (Star a) c' s' else [])
                 (rmatch a c s)) @ [(c, s)]"
| "rmatch (LazyStar a) c s =
     (c, s) # concat (map (\<lambda>(c', s'). if length s' < length s then rmatch (LazyStar a) c' s' else [])
                          (rmatch a c s))"
| "rmatch (Group n a) c s =
     map (\<lambda>(c', s'). ((n, take (length s - length s') s) # c', s')) (rmatch a c s)"
| "rmatch (NotAhead a) c s = (if rmatch a c s = [] then [(c, s)] else [])"

declare rmatch.simps(6,7) [simp del]

text \<open>The quantifier \<^verbatim>\<open>+\<close>: one iteration, then \<^verbatim>\<open>*\<close>.\<close>

definition Rep1 :: "regex \<Rightarrow> regex" where
  "Rep1 r = Cat r (Star r)"

text \<open>
  \<open>exec r s\<close> is the search \<^verbatim>\<open>RegExp.prototype.exec\<close> makes from the start of \<open>s\<close>: the
  leftmost position where \<open>r\<close> matches, and there the first match in backtracking order.
  It returns the text skipped, the text matched, the captures and the text left.
\<close>

fun exec :: "regex \<Rightarrow> string \<Rightarrow> (string \<times> string \<times> captures \<times> string) option" where
  "exec r s =
     (case rmatch r [] s of
        (c, s') # _ \<Rightarrow> Some ([], take (length s - length s') s, c, s')
      | [] \<Rightarrow>
         (case s of
            [] \<Rightarrow> None
          | x # xs \<Rightarrow>
             (case exec r xs of
                None \<Rightarrow> None
              | Some (skip, m, c, s') \<Rightarrow> Some (x # skip, m, c, s'))))"

declare exec.simps [simp del]

text \<open>Group \<open>n\<close> of a match (\<^verbatim>\<open>match[n]\<close>); the most recent capture of the group counts.\<close>

definition capture :: "nat \<Rightarrow> captures \<Rightarrow> string" where
  "capture n c = (case map_of c n of Some w \<Rightarrow> w | None \<Rightarrow> [])"

subsection \<open>What a match is made of\<close>

lemma in_Cat:
  "(c', s') \<in> set (rmatch (Cat a b) c s) \<longleftrightarrow>
     (\<exists>c1 s1. (c1, s1) \<in> set (rmatch a c s) \<and> (c', s') \<in> set (rmatch b c1 s1))"
  by force

lemma in_Star:
  "(c', s') \<in> set (rmatch (Star a) c s) \<longleftrightarrow>
     (c', s') = (c, s) \<or>
     (\<exists>c1 s1. (c1, s1) \<in> set (rmatch a c s) \<and> length s1 < length s \<and>
        (c', s') \<in> set (rmatch (Star a) c1 s1))"
  by (subst rmatch.simps) (force simp del: rmatch.simps split: if_splits)

lemma in_LazyStar:
  "(c', s') \<in> set (rmatch (LazyStar a) c s) \<longleftrightarrow>
     (c', s') = (c, s) \<or>
     (\<exists>c1 s1. (c1, s1) \<in> set (rmatch a c s) \<and> length s1 < length s \<and>
        (c', s') \<in> set (rmatch (LazyStar a) c1 s1))"
  by (subst rmatch.simps) (force simp del: rmatch.simps split: if_splits)

lemma in_Opt:
  "(c', s') \<in> set (rmatch (Opt a) c s) \<longleftrightarrow>
     (c', s') = (c, s) \<or> ((c', s') \<in> set (rmatch a c s) \<and> length s' < length s)"
  by auto

lemma in_Group:
  "(c', s') \<in> set (rmatch (Group n a) c s) \<longleftrightarrow>
     (\<exists>c1. (c1, s') \<in> set (rmatch a c s) \<and> c' = (n, take (length s - length s') s) # c1)"
  by force

lemma in_Sym:
  "(c', s') \<in> set (rmatch (Sym cs) c s) \<longleftrightarrow> (\<exists>x. s = x # s' \<and> cset_has cs x \<and> c' = c)"
  by (auto split: list.splits)

lemma in_Str:
  "(c', s') \<in> set (rmatch (Str w) c s) \<longleftrightarrow> (s = w @ s' \<and> c' = c)"
  by (auto simp: prefix_def)

lemma in_Alt:
  "(c', s') \<in> set (rmatch (Alt a b) c s) \<longleftrightarrow>
     (c', s') \<in> set (rmatch a c s) \<or> (c', s') \<in> set (rmatch b c s)"
  by simp

lemma in_NotAhead:
  "(c', s') \<in> set (rmatch (NotAhead a) c s) \<longleftrightarrow> (rmatch a c s = [] \<and> c' = c \<and> s' = s)"
  by auto

lemmas in_rmatch = in_Cat in_Opt in_Group in_Sym in_Str in_Alt in_NotAhead

lemma rmatch_suffix: "(c', s') \<in> set (rmatch r c s) \<Longrightarrow> suffix s' s"
proof (induction r c s arbitrary: c' s' rule: rmatch.induct)
  case (1 cs c s)
  then show ?case unfolding in_Sym by (auto simp: suffix_Cons)
next
  case (2 w c s)
  then show ?case unfolding in_Str by (auto simp: suffix_def)
next
  case (3 a b c s)
  from "3.prems" obtain c1 s1 where a: "(c1, s1) \<in> set (rmatch a c s)"
    and b: "(c', s') \<in> set (rmatch b c1 s1)" unfolding in_Cat by blast
  from "3.IH"(1)[OF a] "3.IH"(2)[OF a _ b] show ?case
    by (auto intro: suffix_order.trans)
next
  case (4 a b c s)
  then show ?case unfolding in_Alt by blast
next
  case (5 a c s)
  then show ?case unfolding in_Opt by blast
next
  case (6 a c s)
  from "6.prems" show ?case unfolding in_Star[of c' s' a c s]
  proof (elim disjE exE conjE)
    fix c1 s1 assume a: "(c1, s1) \<in> set (rmatch a c s)" and l: "length s1 < length s"
      and b: "(c', s') \<in> set (rmatch (Star a) c1 s1)"
    from "6.IH"(1)[OF a] "6.IH"(2)[OF a _ l b] show ?thesis
      by (auto intro: suffix_order.trans)
  qed simp
next
  case (7 a c s)
  from "7.prems" show ?case unfolding in_LazyStar[of c' s' a c s]
  proof (elim disjE exE conjE)
    fix c1 s1 assume a: "(c1, s1) \<in> set (rmatch a c s)" and l: "length s1 < length s"
      and b: "(c', s') \<in> set (rmatch (LazyStar a) c1 s1)"
    from "7.IH"(1)[OF a] "7.IH"(2)[OF a _ l b] show ?thesis
      by (auto intro: suffix_order.trans)
  qed simp
next
  case (8 n a c s)
  then show ?case unfolding in_Group by blast
next
  case (9 a c s)
  then show ?case unfolding in_NotAhead by simp
qed

text \<open>What \<open>exec\<close> returns splits the text it searched.\<close>

lemma exec_hd:
  "exec r s = Some (skip, m, c, s') \<Longrightarrow>
     \<exists>t. s = skip @ t \<and> rmatch r [] t \<noteq> [] \<and> hd (rmatch r [] t) = (c, s') \<and>
         m = take (length t - length s') t"
proof (induction s arbitrary: skip)
  case Nil
  then show ?case by (auto simp: exec.simps[of r "[]"] split: list.splits)
next
  case (Cons x xs)
  show ?case
  proof (cases "rmatch r [] (x # xs)")
    case Nil
    with Cons.prems obtain skip' where e: "exec r xs = Some (skip', m, c, s')" and sk: "skip = x # skip'"
      by (auto simp: exec.simps[of r "x # xs"] split: option.splits)
    from Cons.IH[OF e] sk show ?thesis by auto
  next
    case (Cons p ps)
    with Cons.prems show ?thesis by (cases p) (auto simp: exec.simps[of r "x # xs"])
  qed
qed

lemma exec_split:
  "exec r s = Some (skip, m, c, s') \<Longrightarrow> s = skip @ m @ s'"
proof -
  assume "exec r s = Some (skip, m, c, s')"
  from exec_hd[OF this] obtain t where t: "s = skip @ t" "rmatch r [] t \<noteq> []"
    "hd (rmatch r [] t) = (c, s')" "m = take (length t - length s') t" by blast
  then have "(c, s') \<in> set (rmatch r [] t)" by (metis hd_in_set)
  then have "suffix s' t" by (rule rmatch_suffix)
  then obtain u where "t = u @ s'" by (auto simp: suffix_def)
  with t show ?thesis by simp
qed

lemma exec_shorter:
  "exec r s = Some (skip, m, c, s') \<Longrightarrow> m \<noteq> [] \<Longrightarrow> length s' < length s"
  by (drule exec_split) simp

section \<open>Global matching and replacement\<close>

text \<open>
  \<^verbatim>\<open>String.prototype.match\<close> with a global pattern: the texts of all matches, each search
  starting where the previous match ended, or one character further when that match was
  empty. The source reads \<^verbatim>\<open>null\<close> (no match) as the empty array.
\<close>

function match_all :: "regex \<Rightarrow> string \<Rightarrow> string list" where
  "match_all r s =
     (case exec r s of
        None \<Rightarrow> []
      | Some (skip, m, c, s') \<Rightarrow>
          m # (if m = [] then (case s' of [] \<Rightarrow> [] | x # xs \<Rightarrow> match_all r xs)
               else match_all r s'))"
  by pat_completeness auto
termination
  by (relation "measure (\<lambda>(r, s). length s)") (auto dest: exec_split)

declare match_all.simps [simp del]

text \<open>
  \<^verbatim>\<open>GetSubstitution\<close>: the text a replacement template stands for at one match. None of
  the patterns this program replaces has a capturing group, so \<^verbatim>\<open>$1\<close> to \<^verbatim>\<open>$99\<close> and
  \<^verbatim>\<open>$<\<close> stand for themselves; \<^verbatim>\<open>$$\<close> is a dollar sign, \<^verbatim>\<open>$&\<close> the matched text,
  \<^verbatim>\<open>$`\<close> the text preceding the match and \<^verbatim>\<open>$'\<close> the text following it.
\<close>

fun getSubstitution :: "string \<Rightarrow> string \<Rightarrow> string \<Rightarrow> string \<Rightarrow> string" where
  "getSubstitution [] matched preceding following = []"
| "getSubstitution [d] matched preceding following = [d]"
| "getSubstitution (d # e # t) matched preceding following =
     (if d = CHR ''$'' \<and> e = CHR ''$'' then CHR ''$'' # getSubstitution t matched preceding following
      else if d = CHR ''$'' \<and> e = CHR ''&'' then matched @ getSubstitution t matched preceding following
      else if d = CHR ''$'' \<and> e = CHR 0x60 then preceding @ getSubstitution t matched preceding following
      else if d = CHR ''$'' \<and> e = CHR 0x27 then following @ getSubstitution t matched preceding following
      else d # getSubstitution (e # t) matched preceding following)"

text \<open>
  \<^verbatim>\<open>String.prototype.replace\<close> with a global pattern and a template. \<open>pre\<close> is the part
  of the whole text preceding \<open>s\<close>, which \<^verbatim>\<open>$`\<close> needs.
\<close>

function replace_from :: "regex \<Rightarrow> string \<Rightarrow> string \<Rightarrow> string \<Rightarrow> string" where
  "replace_from r t pre s =
     (case exec r s of
        None \<Rightarrow> s
      | Some (skip, m, c, s') \<Rightarrow>
          skip @ getSubstitution t m (pre @ skip) s' @
          (if m = [] then (case s' of [] \<Rightarrow> [] | x # xs \<Rightarrow> x # replace_from r t (pre @ skip @ [x]) xs)
           else replace_from r t (pre @ skip @ m) s'))"
  by pat_completeness auto
termination
  by (relation "measure (\<lambda>(r, t, pre, s). length s)") (auto dest: exec_split)

declare replace_from.simps [simp del]

definition replace_g :: "regex \<Rightarrow> string \<Rightarrow> string \<Rightarrow> string" where
  "replace_g r t s = replace_from r t [] s"

text \<open>
  \<^verbatim>\<open>String.prototype.replace\<close> with a text as the pattern: only the first occurrence is
  replaced, and the replacement is a template all the same.
\<close>

definition replace_first :: "string \<Rightarrow> string \<Rightarrow> string \<Rightarrow> string" where
  "replace_first pat t s =
     (case exec (Str pat) s of
        None \<Rightarrow> s
      | Some (skip, m, c, s') \<Rightarrow> skip @ getSubstitution t m skip s' @ s')"

section \<open>The attribute parser\<close>

record attribute =
  key :: string
  val :: string

text \<open>
  The pattern of \<^verbatim>\<open>getAttributes\<close>:
  \<^verbatim>\<open>/(\S+)=["']?((?:.(?!["']?\s+(?:\S+)=|[>"']))+.)["']?/g\<close>
\<close>

definition quote :: regex where
  "quote = Sym (OneOf [CHR 0x22, CHR 0x27])"

definition next_attribute :: regex where
  "next_attribute =
     Cat (Opt quote) (Cat (Rep1 (Sym WhiteSp)) (Cat (Rep1 (Sym NonSp)) (Sym (Lit CHR ''=''))))"

definition value_char :: regex where
  "value_char =
     Cat (Sym AnyChar)
         (NotAhead (Alt next_attribute (Sym (OneOf [CHR ''>'', CHR 0x22, CHR 0x27]))))"

definition attribute_regexp :: regex where
  "attribute_regexp =
     Cat (Group 1 (Rep1 (Sym NonSp)))
    (Cat (Sym (Lit CHR ''=''))
    (Cat (Opt quote)
    (Cat (Group 2 (Cat (Rep1 value_char) (Sym AnyChar)))
         (Opt quote))))"

text \<open>
  The loop of \<^verbatim>\<open>getAttributes\<close> calls \<^verbatim>\<open>regexp.exec(tag)\<close> until it fails; the pattern
  is global, so each call searches from the end of the previous match. A match that
  moved the position by nothing would be found again for ever: the loop would not
  return, which is the value \<open>None\<close> here.
\<close>

function getAttributes :: "string \<Rightarrow> attribute list option" where
  "getAttributes tag =
     (case exec attribute_regexp tag of
        None \<Rightarrow> Some []
      | Some (skip, m, c, rest) \<Rightarrow>
          if length rest < length tag
          then map_option (\<lambda>attributes. \<lparr>key = capture 1 c, val = capture 2 c\<rparr> # attributes)
                          (getAttributes rest)
          else None)"
  by pat_completeness auto
termination
  by (relation "measure length") auto

declare getAttributes.simps [simp del]

section \<open>Settings\<close>

text \<open>
  The module's \<^verbatim>\<open>options\<close> object and its default values.
\<close>

record options =
  tagName :: string
  basePath :: string
  variablePrefix :: string

definition default_options :: options where
  "default_options = \<lparr>tagName = ''partial'', basePath = [], variablePrefix = ''@@''\<rparr>"

section \<open>Pattern texts\<close>

text \<open>
  The source builds some of its patterns at run time, by \<^verbatim>\<open>new RegExp(text, 'g')\<close>, from
  texts that hold the tag name or a placeholder. \<open>pattern_text\<close> reads such a text as
  the literal text it matches: a character that is not pattern syntax stands for itself,
  and so does a character of the class \<^verbatim>\<open>[-\/\\^$*+?.()|[\]{}]\<close> after a backslash. A text
  that holds any other pattern syntax (a quantifier, a class, a group, an anchor, an
  escape such as \<^verbatim>\<open>\d\<close>, a backslash at its end) is not read: the result is \<open>None\<close>, and
  what the program does with such a text is outside the model.
\<close>

definition special_chars :: string where
  "special_chars = ''-/'' @ [CHR 0x5C] @ ''^$*+?.()|[]{}''"

definition syntax_chars :: string where
  "syntax_chars = ''^$'' @ [CHR 0x5C] @ ''.*+?()[]{}|''"

fun pattern_text :: "string \<Rightarrow> string option" where
  "pattern_text [] = Some []"
| "pattern_text [c] = (if c \<in> set syntax_chars then None else Some [c])"
| "pattern_text (c # d # t) =
     (if c = CHR 0x5C
      then (if d \<in> set special_chars then map_option (\<lambda>w. d # w) (pattern_text t) else None)
      else if c \<in> set syntax_chars then None
      else map_option (\<lambda>w. c # w) (pattern_text (d # t)))"

definition RegExp :: "string \<Rightarrow> regex option" where
  "RegExp pattern = map_option Str (pattern_text pattern)"

section \<open>The tag scanner\<close>

text \<open>
  \<^verbatim>\<open>getTags\<close>: the matches of \<^verbatim>\<open><tagName(.*)/tagName>\<close> (closed tags, greedy), then the
  matches of \<^verbatim>\<open><tagName(.*?)/>\<close> (self-closing tags, lazy). The tag name is spliced into
  the pattern text, so it is read as pattern text: the part before the group and the part
  after it are read by \<open>pattern_text\<close>, each a whole literal text of its own (a backslash
  at the end of the name, which would reach into the group, is refused there). With a
  tag name that \<open>pattern_text\<close> does not read there is no pattern in the model, and no
  result.
\<close>

definition closed_regexp :: "options \<Rightarrow> regex option" where
  "closed_regexp opts =
     (case (pattern_text (''<'' @ tagName opts), pattern_text (''/'' @ tagName opts @ ''>'')) of
        (Some opening, Some closing) \<Rightarrow>
          Some (Cat (Str opening) (Cat (Group 1 (Star (Sym AnyChar))) (Str closing)))
      | _ \<Rightarrow> None)"

definition selfClosed_regexp :: "options \<Rightarrow> regex option" where
  "selfClosed_regexp opts =
     (case pattern_text (''<'' @ tagName opts) of
        Some opening \<Rightarrow>
          Some (Cat (Str opening) (Cat (Group 1 (LazyStar (Sym AnyChar))) (Str ''/>'')))
      | None \<Rightarrow> None)"

definition getTags :: "options \<Rightarrow> string \<Rightarrow> string list option" where
  "getTags opts html =
     (case (closed_regexp opts, selfClosed_regexp opts) of
        (Some closed_pattern, Some selfClosed_pattern) \<Rightarrow>
          Some (let closed = match_all closed_pattern html;
                    selfClosed = match_all selfClosed_pattern html
                in closed @ selfClosed)
      | _ \<Rightarrow> None)"

section \<open>The variable substitutor\<close>

text \<open>
  \<^verbatim>\<open>escapeRegExp\<close> puts a backslash before each character of the class
  \<^verbatim>\<open>[-\/\\^$*+?.()|[\]{}]\<close>, by a global replacement with the template \<^verbatim>\<open>\$&\<close>.
  \<open>RegExp_escapeRegExp\<close> below shows that \<open>pattern_text\<close> reads every text it returns.
\<close>

definition escapeRegExp :: "string \<Rightarrow> string" where
  "escapeRegExp s = replace_g (Sym (OneOf special_chars)) [CHR 0x5C, CHR ''$'', CHR ''&''] s"

text \<open>
  \<^verbatim>\<open>replaceAttributes(file, attributes)\<close>: the content is the file's text, or the empty
  text when there is no file; each attribute in turn replaces every match of its escaped
  placeholder in what the attributes before it left, with its value as the template.
\<close>

definition replaceAttributes :: "options \<Rightarrow> string option \<Rightarrow> attribute list \<Rightarrow> string" where
  "replaceAttributes opts file attributes =
     fold (\<lambda>attrib html.
             case RegExp (escapeRegExp (variablePrefix opts @ key attrib)) of
               Some regex \<Rightarrow> replace_g regex (val attrib) html
             | None \<Rightarrow> html)
          attributes
          (case file of Some f \<Rightarrow> f | None \<Rightarrow> [])"

section \<open>The resolver\<close>

text \<open>
  The three replacements at the head of \<^verbatim>\<open>injectHTML\<close> (the same in both of its branches):
  \<^verbatim>\<open>/\r?\n|\r/g\<close> by a space, \<^verbatim>\<open><tagName\<close> by a line break and \<^verbatim>\<open><tagName\<close>, and
  \<^verbatim>\<open>tagName>\<close> by \<^verbatim>\<open>tagName>\<close> and a line break. The two patterns with the tag name are
  built by \<^verbatim>\<open>new RegExp\<close>, so the name is read as pattern text there and as a replacement
  template in the texts put in; with a tag name that \<open>pattern_text\<close> does not read there
  is no result in the model.
\<close>

definition linebreak_regexp :: regex where
  "linebreak_regexp = Alt (Cat (Opt (Sym (Lit CHR 0x0D))) (Sym (Lit CHR 0x0A))) (Sym (Lit CHR 0x0D))"

definition format :: "options \<Rightarrow> string \<Rightarrow> string option" where
  "format opts content0 =
     (case (RegExp (''<'' @ tagName opts), RegExp (tagName opts @ ''>'')) of
        (Some opening, Some closing) \<Rightarrow>
          Some (let content = replace_g linebreak_regexp '' '' content0;
                    content = replace_g opening ([CHR 0x0A] @ ''<'' @ tagName opts) content;
                    content = replace_g closing (tagName opts @ ''>'' @ [CHR 0x0A]) content
                in content)
      | _ \<Rightarrow> None)"

text \<open>
  The resolver proper. Its functions call each other as in the source:
  \<^verbatim>\<open>getPartial\<close> reads the file and hands it to \<^verbatim>\<open>injectHTML\<close>, which formats it and calls
  \<^verbatim>\<open>getHTML\<close>, which calls \<^verbatim>\<open>getPartial\<close> for every tag (\<open>getPartials\<close> is that
  \<^verbatim>\<open>tags.map\<close>). What is outside the repository is a parameter: \<open>prettyPrint\<close> is
  \<^verbatim>\<open>html.prettyPrint\<close>, and \<open>fs\<close> gives the contents of the paths that exist
  (\<^verbatim>\<open>fs.existsSync\<close>, \<^verbatim>\<open>fs.readFileSync\<close>; contents are texts already decoded). A result is
  the text and the lines logged, in order; a logged line is the message of the
  \<^verbatim>\<open>PluginError\<close>, without the plugin name before it and without colour codes.

  The source recurses without a bound, so a file that includes itself never resolves.
  \<open>depth\<close> is the number of nested includes the call stack has room for. The result
  \<open>None\<close> is the stack running out, or a tag name that the model does not read as
  pattern text.
\<close>

type_synonym resolved = "string \<times> string list"

definition missing_src :: string where
  \<open>missing_src = ''Some partial does not have 'src' attribute''\<close>

definition not_found :: "string \<Rightarrow> string" where
  "not_found path = ''File '' @ path @ '' does not exist.''"

function getPartial :: "options \<Rightarrow> (string \<Rightarrow> string) \<Rightarrow> (string \<Rightarrow> string option) \<Rightarrow> nat \<Rightarrow>
    attribute list \<Rightarrow> resolved option"
and getPartials :: "options \<Rightarrow> (string \<Rightarrow> string) \<Rightarrow> (string \<Rightarrow> string option) \<Rightarrow> nat \<Rightarrow>
    string list \<Rightarrow> (string list \<times> string list) option"
and getHTML :: "options \<Rightarrow> (string \<Rightarrow> string) \<Rightarrow> (string \<Rightarrow> string option) \<Rightarrow> nat \<Rightarrow>
    string \<Rightarrow> resolved option"
and injectHTML :: "options \<Rightarrow> (string \<Rightarrow> string) \<Rightarrow> (string \<Rightarrow> string option) \<Rightarrow> nat \<Rightarrow>
    string \<Rightarrow> resolved option"
where
  "getPartial opts prettyPrint fs depth attributes =
     (let splitAttr = partition (\<lambda>attribute. key attribute = ''src'') attributes;
          sourcePath = (case fst splitAttr of [] \<Rightarrow> None | a # _ \<Rightarrow> Some (val a))
      in case sourcePath of
           None \<Rightarrow> Some (replaceAttributes opts None (snd splitAttr), [missing_src])
         | Some p \<Rightarrow>
             if p = [] then Some (replaceAttributes opts None (snd splitAttr), [missing_src])
             else (case fs (basePath opts @ p) of
                     None \<Rightarrow> Some (replaceAttributes opts None (snd splitAttr),
                                    [not_found (basePath opts @ p)])
                   | Some contents \<Rightarrow>
                       (case depth of
                          0 \<Rightarrow> None
                        | Suc d \<Rightarrow>
                            (case injectHTML opts prettyPrint fs d contents of
                               None \<Rightarrow> None
                             | Some (file, log) \<Rightarrow>
                                 Some (replaceAttributes opts (Some file) (snd splitAttr), log)))))"
| "getPartials opts prettyPrint fs depth [] = Some ([], [])"
| "getPartials opts prettyPrint fs depth (tag # tags) =
     (case getAttributes tag of
        None \<Rightarrow> None
      | Some attributes \<Rightarrow>
          (case getPartial opts prettyPrint fs depth attributes of
             None \<Rightarrow> None
           | Some (p, log) \<Rightarrow>
               (case getPartials opts prettyPrint fs depth tags of
                  None \<Rightarrow> None
                | Some (ps, logs) \<Rightarrow> Some (p # ps, log @ logs))))"
| "getHTML opts prettyPrint fs depth html =
     (case getTags opts html of
        None \<Rightarrow> None
      | Some tags \<Rightarrow>
          (case getPartials opts prettyPrint fs depth tags of
             None \<Rightarrow> None
           | Some (partials, log) \<Rightarrow>
               Some (fold (\<lambda>(tag, p) output. replace_first tag p output) (zip tags partials) html,
                     log)))"
| "injectHTML opts prettyPrint fs depth content =
     (case format opts content of
        None \<Rightarrow> None
      | Some formatted \<Rightarrow>
          (case getHTML opts prettyPrint fs depth formatted of
             None \<Rightarrow> None
           | Some (html, log) \<Rightarrow> Some (prettyPrint html, log)))"
  by pat_completeness auto
termination
  by (relation "inv_image (less_than <*lex*> less_than <*lex*> less_than) (\<lambda>x. case x of
         Inl (Inl (opts, pp, fs, d, attrs)) \<Rightarrow> (d, 0::nat, 0::nat)
       | Inl (Inr (opts, pp, fs, d, tags)) \<Rightarrow> (d, 1, length tags)
       | Inr (Inl (opts, pp, fs, d, html)) \<Rightarrow> (d, 2, 0)
       | Inr (Inr (opts, pp, fs, d, content)) \<Rightarrow> (d, 3, 0))") auto

declare getPartial.simps [simp del] getHTML.simps [simp del] injectHTML.simps [simp del]

section \<open>The stream boundary\<close>

text \<open>
  \<^verbatim>\<open>transform(config)\<close> does two things. It copies the keys the caller gave over the
  module's \<^verbatim>\<open>options\<close> object (\<^verbatim>\<open>Object.assign(options, config)\<close>, here \<open>assign\<close>); a
  configuration may leave any key out. And it returns a stream whose callback (here
  \<open>transform_callback\<close>) handles each file with the settings the object holds when the
  file arrives: the resolver reads \<^verbatim>\<open>options\<close> then, not when the stream was made.
\<close>

record config =
  cfg_tagName :: "string option"
  cfg_basePath :: "string option"
  cfg_variablePrefix :: "string option"

definition assign :: "options \<Rightarrow> config \<Rightarrow> options" where
  "assign opts cfg =
     \<lparr>tagName = (case cfg_tagName cfg of Some v \<Rightarrow> v | None \<Rightarrow> tagName opts),
      basePath = (case cfg_basePath cfg of Some v \<Rightarrow> v | None \<Rightarrow> basePath opts),
      variablePrefix = (case cfg_variablePrefix cfg of Some v \<Rightarrow> v | None \<Rightarrow> variablePrefix opts)\<rparr>"

text \<open>
  A file of the pipeline carries its contents as a stream, as a buffer or not at all.
  The callback answers with the file it hands on (\<^verbatim>\<open>callback(null, file)\<close> or
  \<^verbatim>\<open>this.push(file)\<close>), the error events its listeners receive, the error it throws and
  the lines the resolver logs.

  For a file that is a stream the callback calls \<^verbatim>\<open>this.emit('error', ...)\<close> and then
  \<^verbatim>\<open>callback(null, file)\<close>. The stream is an event emitter: when a listener for
  \<^verbatim>\<open>error\<close> is attached to it the listener receives the error and \<^verbatim>\<open>emit\<close> returns; when
  none is attached \<^verbatim>\<open>emit\<close> throws the error, and the statement after it is not reached.
  \<open>listening\<close> says whether the stream has such a listener when the file arrives.
\<close>

datatype vinyl = Stream string | Buffer string | Null

record handled =
  passed :: "vinyl option"
  emitted :: "string list"
  thrown :: "string option"
  logged :: "string list"

definition transform_callback :: "bool \<Rightarrow> options \<Rightarrow> (string \<Rightarrow> string) \<Rightarrow>
    (string \<Rightarrow> string option) \<Rightarrow> nat \<Rightarrow> vinyl \<Rightarrow> handled option" where
  "transform_callback listening opts prettyPrint fs depth file =
     (case file of
        Stream x \<Rightarrow>
          if listening
          then Some \<lparr>passed = Some file, emitted = [''Streams are not supported''],
                      thrown = None, logged = []\<rparr>
          else Some \<lparr>passed = None, emitted = [],
                      thrown = Some ''Streams are not supported'', logged = []\<rparr>
      | Buffer contents \<Rightarrow>
          (case injectHTML opts prettyPrint fs depth contents of
             None \<Rightarrow> None
           | Some (out, log) \<Rightarrow>
               Some \<lparr>passed = Some (Buffer out), emitted = [], thrown = None, logged = log\<rparr>)
      | Null \<Rightarrow> Some \<lparr>passed = Some file, emitted = [], thrown = None, logged = []\<rparr>)"

text \<open>
  A run of the module. It is loaded once, with its default settings; after that
  \<^verbatim>\<open>transform\<close> is called any number of times, each call making a stream, and files arrive
  at the streams made so far, in any order between the calls. \<open>Transform cfg\<close> is a call,
  \<open>File n file\<close> the arrival of a file at the stream that the \<open>n\<close>-th call made.
  \<open>listeners n\<close> says whether that stream has a listener for errors. All the streams
  read the one \<^verbatim>\<open>options\<close> object, so the number of the stream matters for nothing but
  its listener. \<open>play\<close> gives what the callback answers for each file, in the order of
  arrival. An error that a callback throws leaves the plugin and goes to whatever called
  the stream; whether files still arrive after it is for that caller to say, so the
  events after it are those of a run that went on.
\<close>

datatype event = Transform config | File nat vinyl

fun play :: "(nat \<Rightarrow> bool) \<Rightarrow> (string \<Rightarrow> string) \<Rightarrow> (string \<Rightarrow> string option) \<Rightarrow> nat \<Rightarrow>
    options \<Rightarrow> event list \<Rightarrow> handled option list" where
  "play listeners prettyPrint fs depth opts [] = []"
| "play listeners prettyPrint fs depth opts (Transform cfg # events) =
     play listeners prettyPrint fs depth (assign opts cfg) events"
| "play listeners prettyPrint fs depth opts (File n file # events) =
     transform_callback (listeners n) opts prettyPrint fs depth file #
     play listeners prettyPrint fs depth opts events"

definition run :: "(nat \<Rightarrow> bool) \<Rightarrow> (string \<Rightarrow> string) \<Rightarrow> (string \<Rightarrow> string option) \<Rightarrow> nat \<Rightarrow>
    event list \<Rightarrow> handled option list" where
  "run listeners prettyPrint fs depth events =
     play listeners prettyPrint fs depth default_options events"

section \<open>Reference readings\<close>

text \<open>
  The functions of this section are not in the source. They say directly, on the text,
  what the source's replacements and patterns come to, and are compared with the source's
  functions in the sections that follow.
\<close>

text \<open>
  Every occurrence of the text \<open>w\<close>, found from left to right and never inside text put
  in by an earlier replacement of the same pass, gives way to what the template \<open>t\<close>
  stands for there.
\<close>

function replace_literal :: "string \<Rightarrow> string \<Rightarrow> string \<Rightarrow> string \<Rightarrow> string" where
  "replace_literal w t pre [] = []"
| "replace_literal w t pre (x # xs) =
     (if w \<noteq> [] \<and> prefix w (x # xs)
      then getSubstitution t w pre (drop (length w) (x # xs)) @
           replace_literal w t (pre @ w) (drop (length w) (x # xs))
      else x # replace_literal w t (pre @ [x]) xs)"
  by pat_completeness auto
termination
  by (relation "measure (\<lambda>(w, t, pre, s). length s)") (auto simp: neq_Nil_conv)

declare replace_literal.simps(2) [simp del]

text \<open>
  The same with the value put in as it stands: what the substitutor is described to do.
\<close>

function substitute :: "string \<Rightarrow> string \<Rightarrow> string \<Rightarrow> string" where
  "substitute w v [] = []"
| "substitute w v (x # xs) =
     (if w \<noteq> [] \<and> prefix w (x # xs)
      then v @ substitute w v (drop (length w) (x # xs))
      else x # substitute w v xs)"
  by pat_completeness auto
termination
  by (relation "measure (\<lambda>(w, v, s). length s)") (auto simp: neq_Nil_conv)

declare substitute.simps(2) [simp del]

text \<open>What \<^verbatim>\<open>escapeRegExp\<close> does to one character.\<close>

definition escape_char :: "char \<Rightarrow> string" where
  "escape_char c = (if c \<in> set special_chars then [CHR 0x5C, c] else [c])"

text \<open>
  The formatter in the words of its description: every line break (CR LF, LF or CR)
  becomes one space; then a line break goes in before every occurrence of a text and
  after every occurrence of another.
\<close>

fun collapse :: "string \<Rightarrow> string" where
  "collapse [] = []"
| "collapse [c] = (if c = CHR 0x0D \<or> c = CHR 0x0A then '' '' else [c])"
| "collapse (c # d # t) =
     (if c = CHR 0x0D \<and> d = CHR 0x0A then CHR '' '' # collapse t
      else if c = CHR 0x0D \<or> c = CHR 0x0A then CHR '' '' # collapse (d # t)
      else c # collapse (d # t))"

function break_before :: "string \<Rightarrow> string \<Rightarrow> string" where
  "break_before w [] = []"
| "break_before w (x # xs) =
     (if w \<noteq> [] \<and> prefix w (x # xs)
      then CHR 0x0A # w @ break_before w (drop (length w) (x # xs))
      else x # break_before w xs)"
  by pat_completeness auto
termination
  by (relation "measure (\<lambda>(w, s). length s)") (auto simp: neq_Nil_conv)

function break_after :: "string \<Rightarrow> string \<Rightarrow> string" where
  "break_after w [] = []"
| "break_after w (x # xs) =
     (if w \<noteq> [] \<and> prefix w (x # xs)
      then w @ CHR 0x0A # break_after w (drop (length w) (x # xs))
      else x # break_after w xs)"
  by pat_completeness auto
termination
  by (relation "measure (\<lambda>(w, s). length s)") (auto simp: neq_Nil_conv)

declare break_before.simps(2) [simp del] break_after.simps(2) [simp del]

text \<open>
  \<open>first r c s\<close> is the match the engine reports for \<open>r\<close> at the start of \<open>s\<close>, if there is
  one. \<open>ahead\<close> is what the lookahead of the value pattern looks for. A text is \<open>quiet\<close>
  when no equals sign stands in its leading run of characters that are not white space:
  no key can be read at its start.
\<close>

definition first :: "regex \<Rightarrow> captures \<Rightarrow> string \<Rightarrow> (captures \<times> string) option" where
  "first r c s = (case rmatch r c s of [] \<Rightarrow> None | x # _ \<Rightarrow> Some x)"

definition ahead :: regex where
  "ahead = Alt next_attribute (Sym (OneOf [CHR ''>'', CHR 0x22, CHR 0x27]))"

definition quiet :: "string \<Rightarrow> bool" where
  "quiet tail = (CHR ''='' \<notin> set (takeWhile (\<lambda>x. \<not> white_space x) tail))"

text \<open>
  A tag as it is usually written: \<^verbatim>\<open><\<close> and the name, then each attribute as a separator
  of white space (which may hold line breaks), the key, an equals sign and the value in
  double quotes, then \<^verbatim>\<open>/>\<close> (self-closing form) or \<^verbatim>\<open>>\<close>, a body and the closing tag
  (closed form). A key is plain when it is not empty and holds no white space and no
  angle bracket; a value is plain when it has at least two characters and none of them
  is a line break, a quote, an angle bracket or \<^verbatim>\<open>=\<close>. A tag name is plain when it is
  not empty and holds no pattern syntax, no line break and none of \<^verbatim>\<open>< > / = "\<close>; a text
  around a tag is plain when it holds no angle bracket, and a body when it holds no
  angle bracket and no \<^verbatim>\<open>=\<close>. \<open>on_one_line\<close> is the attribute list with every line break
  of its separators read as a space.
\<close>

definition spaced :: "string \<Rightarrow> bool" where
  "spaced sep = (sep \<noteq> [] \<and> (\<forall>x \<in> set sep. white_space x))"

definition plain_key :: "string \<Rightarrow> bool" where
  "plain_key k = (k \<noteq> [] \<and> (\<forall>x \<in> set k. \<not> white_space x \<and> x \<notin> {CHR ''<'', CHR ''>''}))"

definition plain_value :: "string \<Rightarrow> bool" where
  "plain_value v =
     (2 \<le> length v \<and>
      (\<forall>x \<in> set v. \<not> line_terminator x \<and>
                     x \<notin> {CHR ''<'', CHR ''>'', CHR 0x22, CHR 0x27, CHR ''=''}))"

definition plain_attribute :: "attribute \<Rightarrow> bool" where
  "plain_attribute a = (plain_key (key a) \<and> plain_value (val a))"

definition plain_name :: "string \<Rightarrow> bool" where
  "plain_name n =
     (n \<noteq> [] \<and>
      (\<forall>x \<in> set n. x \<notin> set syntax_chars \<and> \<not> line_terminator x \<and>
                     x \<notin> {CHR ''<'', CHR ''>'', CHR ''/'', CHR ''='', CHR 0x22}))"

definition plain_text :: "string \<Rightarrow> bool" where
  "plain_text t = (CHR ''<'' \<notin> set t \<and> CHR ''>'' \<notin> set t)"


type_synonym written = "(string \<times> attribute) list"

definition well_written :: "written \<Rightarrow> bool" where
  "well_written items = (\<forall>item \<in> set items. spaced (fst item) \<and> plain_attribute (snd item))"

definition render :: "string \<times> attribute \<Rightarrow> string" where
  "render item =
     fst item @ key (snd item) @ CHR ''='' # CHR 0x22 # val (snd item) @ [CHR 0x22]"

definition self_closing_form :: "string \<Rightarrow> written \<Rightarrow> string" where
  "self_closing_form name items = ''<'' @ name @ concat (map render items) @ ''/>''"

definition closed_form :: "string \<Rightarrow> written \<Rightarrow> string \<Rightarrow> string" where
  "closed_form name items body =
     ''<'' @ name @ concat (map render items) @ ''>'' @ body @ ''</'' @ name @ ''>''"

definition on_one_line :: "written \<Rightarrow> written" where
  "on_one_line items = map (\<lambda>item. (collapse (fst item), snd item)) items"

text \<open>
  The document made of the texts \<open>preceding\<close>, \<open>tag\<close> and \<open>following\<close> after the
  tag, found once by the scanner, gave way to a partial: the partial goes in as a
  replacement template with these three texts around it, the document is pretty-printed
  and the partial's log lines are the document's. There is no document when the partial
  has no result.
\<close>

definition put_in :: "(string \<Rightarrow> string) \<Rightarrow> string \<Rightarrow> string \<Rightarrow> string \<Rightarrow> resolved option \<Rightarrow>
    resolved option" where
  "put_in prettyPrint preceding tag following partial =
     map_option
       (\<lambda>(p, log). (prettyPrint (preceding @ getSubstitution p tag preceding following @ following), log))
       partial"

text \<open>
  The source path as \<^verbatim>\<open>getPartial\<close> reads it: the value of the first attribute whose key
  is \<^verbatim>\<open>src\<close>. The line it logs when the path is missing or names no file.
\<close>

definition sourcePath :: "attribute list \<Rightarrow> string option" where
  "sourcePath attributes =
     (case filter (\<lambda>attribute. key attribute = ''src'') attributes of
        [] \<Rightarrow> None
      | a # _ \<Rightarrow> Some (val a))"

definition complaint :: "options \<Rightarrow> attribute list \<Rightarrow> string" where
  "complaint opts attributes =
     (case sourcePath attributes of
        None \<Rightarrow> missing_src
      | Some p \<Rightarrow> not_found (basePath opts @ p))"

text \<open>
  The calls of \<^verbatim>\<open>transform\<close> in a run, in order, and the value in force for one key after
  a list of calls: the value of the last configuration that gives the key, and the
  starting value when none gives it.
\<close>

fun calls :: "event list \<Rightarrow> config list" where
  "calls [] = []"
| "calls (Transform cfg # events) = cfg # calls events"
| "calls (File n file # events) = calls events"

definition in_force :: "(config \<Rightarrow> string option) \<Rightarrow> string \<Rightarrow> config list \<Rightarrow> string" where
  "in_force sel start configs =
     (case List.map_filter sel configs of [] \<Rightarrow> start | v # vs \<Rightarrow> last (v # vs))"

section \<open>Worked inputs\<close>

text \<open>
  The pretty printer is a library outside the repository; the resolver takes it as a
  parameter. The worked inputs below use the one that leaves its text alone. Each
  filesystem lists the files that exist, with their contents.
\<close>

definition leave :: "string \<Rightarrow> string" where
  "leave s = s"

definition fs_multiple :: "string \<Rightarrow> string option" where
  "fs_multiple = map_of [(''f.html'', ''@@a-@@b'')]"

definition fs_three :: "string \<Rightarrow> string option" where
  \<open>fs_three = map_of [(''B.html'', ''<h1>@@title</h1><partial src="C.html" title="Y"/>''),
                      (''C.html'', ''<p>@@title</p>'')]\<close>

definition fs_price :: "string \<Rightarrow> string option" where
  "fs_price = map_of [(''f.html'', ''Price: @@p'')]"

definition fs_hello :: "string \<Rightarrow> string option" where
  "fs_hello = map_of [(''f.html'', ''hello'')]"

definition fs_following :: "string \<Rightarrow> string option" where
  "fs_following = map_of [(''f.html'', [CHR 0x27, CHR ''$'', CHR 0x27])]"


definition only_tagName :: config where
  "only_tagName = \<lparr>cfg_tagName = Some ''include'', cfg_basePath = None, cfg_variablePrefix = None\<rparr>"

definition no_keys :: config where
  "no_keys = \<lparr>cfg_tagName = None, cfg_basePath = None, cfg_variablePrefix = None\<rparr>"





section \<open>Properties of the matcher\<close>

fun group_free :: "regex \<Rightarrow> bool" where
  "group_free (Sym cs) = True"
| "group_free (Str w) = True"
| "group_free (Cat a b) = (group_free a \<and> group_free b)"
| "group_free (Alt a b) = (group_free a \<and> group_free b)"
| "group_free (Opt a) = group_free a"
| "group_free (Star a) = group_free a"
| "group_free (LazyStar a) = group_free a"
| "group_free (Group n a) = False"
| "group_free (NotAhead a) = True"

lemma rmatch_group_free:
  "group_free r \<Longrightarrow> (c', s') \<in> set (rmatch r c s) \<Longrightarrow> c' = c"
proof (induction r c s arbitrary: c' s' rule: rmatch.induct)
  case (3 a b c s)
  from "3.prems" obtain c1 s1 where a: "(c1, s1) \<in> set (rmatch a c s)"
    and b: "(c', s') \<in> set (rmatch b c1 s1)" unfolding in_Cat by blast
  from "3.prems"(1) "3.IH"(1)[OF _ a] "3.IH"(2)[OF a _ _ b] show ?case by simp
next
  case (6 a c s)
  from "6.prems"(2) show ?case unfolding in_Star[of c' s' a c s]
  proof (elim disjE exE conjE)
    fix c1 s1 assume a: "(c1, s1) \<in> set (rmatch a c s)" and l: "length s1 < length s"
      and b: "(c', s') \<in> set (rmatch (Star a) c1 s1)"
    from "6.prems"(1) "6.IH"(1)[OF _ a] "6.IH"(2)[OF a _ l _ b] show ?thesis by simp
  qed simp
next
  case (7 a c s)
  from "7.prems"(2) show ?case unfolding in_LazyStar[of c' s' a c s]
  proof (elim disjE exE conjE)
    fix c1 s1 assume a: "(c1, s1) \<in> set (rmatch a c s)" and l: "length s1 < length s"
      and b: "(c', s') \<in> set (rmatch (LazyStar a) c1 s1)"
    from "7.prems"(1) "7.IH"(1)[OF _ a] "7.IH"(2)[OF a _ l _ b] show ?thesis by simp
  qed simp
qed (auto simp only: in_rmatch group_free.simps)

fun min_len :: "regex \<Rightarrow> nat" where
  "min_len (Sym cs) = 1"
| "min_len (Str w) = length w"
| "min_len (Cat a b) = min_len a + min_len b"
| "min_len (Alt a b) = min (min_len a) (min_len b)"
| "min_len (Opt a) = 0"
| "min_len (Star a) = 0"
| "min_len (LazyStar a) = 0"
| "min_len (Group n a) = min_len a"
| "min_len (NotAhead a) = 0"

lemma rmatch_min_len:
  "(c', s') \<in> set (rmatch r c s) \<Longrightarrow> length s' + min_len r \<le> length s"
proof (induction r c s arbitrary: c' s' rule: rmatch.induct)
  case (1 cs c s)
  then show ?case unfolding in_Sym by auto
next
  case (2 w c s)
  then show ?case unfolding in_Str by auto
next
  case (3 a b c s)
  from "3.prems" obtain c1 s1 where a: "(c1, s1) \<in> set (rmatch a c s)"
    and b: "(c', s') \<in> set (rmatch b c1 s1)" unfolding in_Cat by blast
  from "3.IH"(1)[OF a] "3.IH"(2)[OF a _ b] show ?case by simp
next
  case (4 a b c s)
  then show ?case unfolding in_Alt by fastforce
next
  case (5 a c s)
  then show ?case unfolding in_Opt by auto
next
  case (6 a c s)
  from "6.prems" have "suffix s' s" by (rule rmatch_suffix)
  then show ?case by (simp add: suffix_length_le)
next
  case (7 a c s)
  from "7.prems" have "suffix s' s" by (rule rmatch_suffix)
  then show ?case by (simp add: suffix_length_le)
next
  case (8 n a c s)
  then show ?case unfolding in_Group by auto
next
  case (9 a c s)
  then show ?case unfolding in_NotAhead by simp
qed

lemma star_sym_chars:
  "(c', s') \<in> set (rmatch (Star (Sym cs)) c s) \<Longrightarrow>
     c' = c \<and> (\<exists>k. s = k @ s' \<and> (\<forall>x \<in> set k. cset_has cs x))"
proof (induction s arbitrary: c' s')
  case Nil
  then show ?case unfolding in_Star[of c' s' _ c "[]"] by auto
next
  case (Cons x xs)
  from Cons.prems show ?case unfolding in_Star[of c' s' _ c "x # xs"] in_Sym
  proof (elim disjE exE conjE)
    fix c1 s1 y
    assume "x # xs = y # s1" "cset_has cs y" "c1 = c" "(c', s') \<in> set (rmatch (Star (Sym cs)) c1 s1)"
    with Cons.IH[of c' s'] obtain k where "c' = c" "xs = k @ s'" "\<forall>x \<in> set k. cset_has cs x" "cset_has cs x"
      by auto
    then have "x # xs = (x # k) @ s' \<and> (\<forall>z \<in> set (x # k). cset_has cs z)" by simp
    with \<open>c' = c\<close> show ?thesis by blast
  qed auto
qed

section \<open>Properties of the replacements\<close>

lemma exec_Nil_rmatch:
  "rmatch r [] (x # xs) = [] \<Longrightarrow>
     exec r (x # xs) = (case exec r xs of None \<Rightarrow> None | Some (skip, m, c, s') \<Rightarrow> Some (x # skip, m, c, s'))"
  by (subst exec.simps) simp

lemma exec_Cons_rmatch:
  "rmatch r [] s = (c, s') # rest \<Longrightarrow> exec r s = Some ([], take (length s - length s') s, c, s')"
  by (subst exec.simps) simp

lemma exec_empty:
  "rmatch r [] [] = [] \<Longrightarrow> exec r [] = None"
  by (subst exec.simps) simp

lemma replace_from_skip:
  assumes "rmatch r [] (x # xs) = []"
  shows "replace_from r t pre (x # xs) = x # replace_from r t (pre @ [x]) xs"
proof (cases "exec r xs")
  case None
  then show ?thesis
    by (simp add: replace_from.simps[of r t pre "x # xs"] replace_from.simps[of r t "pre @ [x]" xs]
        exec_Nil_rmatch[OF assms])
next
  case (Some p)
  then obtain skip m c s' where "exec r xs = Some (skip, m, c, s')" by (cases p) auto
  then show ?thesis
    by (simp add: replace_from.simps[of r t pre "x # xs"] replace_from.simps[of r t "pre @ [x]" xs]
        exec_Nil_rmatch[OF assms] split: list.splits)
qed

lemma replace_from_match:
  assumes "rmatch r [] s = (c, s') # rest" and "s = m @ s'" and "m \<noteq> []"
  shows "replace_from r t pre s = getSubstitution t m pre s' @ replace_from r t (pre @ m) s'"
proof -
  have e: "exec r s = Some ([], m, c, s')" using exec_Cons_rmatch[OF assms(1)] assms(2) by simp
  show ?thesis by (subst replace_from.simps) (simp add: e assms(3))
qed

lemma replace_from_empty:
  "rmatch r [] [] = [] \<Longrightarrow> replace_from r t pre [] = []"
  by (simp add: replace_from.simps[of r t pre "[]"] exec_empty)

lemma replace_from_Str:
  "w \<noteq> [] \<Longrightarrow> replace_from (Str w) t pre s = replace_literal w t pre s"
proof (induction w t pre s rule: replace_literal.induct)
  case (1 w t pre)
  then show ?case by (simp add: replace_from_empty)
next
  case (2 w t pre x xs)
  show ?case
  proof (cases "prefix w (x # xs)")
    case True
    then obtain s' where s': "x # xs = w @ s'" by (auto simp: prefix_def)
    then have d: "drop (length w) (x # xs) = s'" by (metis append_eq_conv_conj)
    have m: "rmatch (Str w) [] (x # xs) = ([], s') # []" using True d by simp
    from "2.IH"(1) "2.prems" True d
    have ih: "replace_from (Str w) t (pre @ w) s' = replace_literal w t (pre @ w) s'" by simp
    show ?thesis
      using replace_from_match[OF m s' "2.prems", of t pre] ih True "2.prems" d
      by (simp add: replace_literal.simps(2))
  next
    case False
    then have m: "rmatch (Str w) [] (x # xs) = []" by simp
    from "2.IH"(2) "2.prems" False
    have ih: "replace_from (Str w) t (pre @ [x]) xs = replace_literal w t (pre @ [x]) xs" by simp
    show ?thesis using replace_from_skip[OF m, of t pre] ih False
      by (simp add: replace_literal.simps(2))
  qed
qed

lemma escapeRegExp_from:
  "replace_from (Sym (OneOf special_chars)) [CHR 0x5C, CHR ''$'', CHR ''&''] pre s =
     concat (map escape_char s)"
proof (induction s arbitrary: pre)
  case Nil
  then show ?case by (simp add: replace_from_empty)
next
  case (Cons x xs)
  show ?case
  proof (cases "x \<in> set special_chars")
    case True
    then have m: "rmatch (Sym (OneOf special_chars)) [] (x # xs) = ([], xs) # []" by simp
    have "replace_from (Sym (OneOf special_chars)) [CHR 0x5C, CHR ''$'', CHR ''&''] pre (x # xs) =
        getSubstitution [CHR 0x5C, CHR ''$'', CHR ''&''] [x] pre xs @
        replace_from (Sym (OneOf special_chars)) [CHR 0x5C, CHR ''$'', CHR ''&''] (pre @ [x]) xs"
      by (rule replace_from_match[OF m]) simp_all
    then show ?thesis using True by (simp add: Cons.IH escape_char_def)
  next
    case False
    then have m: "rmatch (Sym (OneOf special_chars)) [] (x # xs) = []" by simp
    show ?thesis using False by (simp add: replace_from_skip[OF m] Cons.IH escape_char_def)
  qed
qed

lemma escapeRegExp_chars: "escapeRegExp s = concat (map escape_char s)"
  by (simp add: escapeRegExp_def replace_g_def escapeRegExp_from)

lemma syntax_special: "c \<in> set syntax_chars \<Longrightarrow> c \<in> set special_chars"
  by (auto simp: syntax_chars_def special_chars_def)

lemma backslash_special: "CHR 0x5C \<in> set special_chars"
  by (simp add: special_chars_def)

lemma pattern_text_escaped: "pattern_text (concat (map escape_char s)) = Some s"
proof (induction s)
  case Nil
  then show ?case by simp
next
  case (Cons x xs)
  show ?case
  proof (cases "x \<in> set special_chars")
    case True
    then have "escape_char x = [CHR 0x5C, x]" by (simp add: escape_char_def)
    then show ?thesis using Cons.IH True by simp
  next
    case False
    then have nb: "x \<noteq> CHR 0x5C" and ns: "x \<notin> set syntax_chars"
      using backslash_special syntax_special by auto
    from False have e: "escape_char x = [x]" by (simp add: escape_char_def)
    show ?thesis
    proof (cases "concat (map escape_char xs)")
      case Nil
      with Cons.IH have "xs = []" by simp
      with e ns show ?thesis by simp
    next
      case (Cons d t)
      with Cons.IH e nb ns show ?thesis by simp
    qed
  qed
qed

lemma RegExp_escapeRegExp: "RegExp (escapeRegExp s) = Some (Str s)"
  by (simp add: RegExp_def escapeRegExp_chars pattern_text_escaped)

lemma replaceAttributes_Cons:
  "replaceAttributes opts file (a # attributes) =
     replaceAttributes opts
       (Some (replace_g (Str (variablePrefix opts @ key a)) (val a)
                (case file of Some f \<Rightarrow> f | None \<Rightarrow> [])))
       attributes"
  by (simp add: replaceAttributes_def RegExp_escapeRegExp)

lemma replaceAttributes_Nil:
  "replaceAttributes opts file [] = (case file of Some f \<Rightarrow> f | None \<Rightarrow> [])"
  by (simp add: replaceAttributes_def)

lemma replaceAttributes_append:
  "replaceAttributes opts file (as @ bs) =
     replaceAttributes opts (Some (replaceAttributes opts file as)) bs"
  by (simp add: replaceAttributes_def)

lemma getSubstitution_plain:
  "CHR ''$'' \<notin> set t \<Longrightarrow> getSubstitution t m pre post = t"
  by (induction t m pre post rule: getSubstitution.induct) auto

text \<open>
  A value without a dollar sign goes in as it stands, at every occurrence of the
  placeholder, read as literal text.
\<close>

lemma replace_literal_plain:
  "CHR ''$'' \<notin> set v \<Longrightarrow> replace_literal w v pre s = substitute w v s"
proof (induction w v s arbitrary: pre rule: substitute.induct)
  case (1 w v)
  then show ?case by simp
next
  case (2 w v x xs)
  show ?case
  proof (cases "w \<noteq> [] \<and> prefix w (x # xs)")
    case True
    then have l: "replace_literal w v pre (x # xs) =
        getSubstitution v w pre (drop (length w) (x # xs)) @
        replace_literal w v (pre @ w) (drop (length w) (x # xs))"
      by (simp add: replace_literal.simps(2))
    from True have r: "substitute w v (x # xs) = v @ substitute w v (drop (length w) (x # xs))"
      by (simp add: substitute.simps(2))
    show ?thesis
      by (simp only: l r getSubstitution_plain[OF "2.prems"] "2.IH"(1)[OF True "2.prems"])
  next
    case False
    then have l: "replace_literal w v pre (x # xs) = x # replace_literal w v (pre @ [x]) xs"
      by (auto simp: replace_literal.simps(2))
    from False have r: "substitute w v (x # xs) = x # substitute w v xs"
      by (auto simp: substitute.simps(2))
    show ?thesis by (simp only: l r "2.IH"(2)[OF False "2.prems"])
  qed
qed

lemma replaceAttributes_plain_value:
  assumes "CHR ''$'' \<notin> set (val a)" and "variablePrefix opts @ key a \<noteq> []"
  shows "replaceAttributes opts (Some content) [a] =
           substitute (variablePrefix opts @ key a) (val a) content"
  using assms
  by (simp add: replaceAttributes_Cons replaceAttributes_Nil replace_g_def replace_from_Str
      replace_literal_plain)

section \<open>The attribute parser returns, and what it returns\<close>

lemma rep1_sym_chars:
  assumes "(c', s') \<in> set (rmatch (Rep1 (Sym cs)) c s)"
  shows "c' = c \<and> (\<exists>k. k \<noteq> [] \<and> s = k @ s' \<and> (\<forall>x \<in> set k. cset_has cs x))"
proof -
  from assms obtain x t where s: "s = x # t" and x: "cset_has cs x"
    and st: "(c', s') \<in> set (rmatch (Star (Sym cs)) c t)"
    unfolding Rep1_def in_Cat in_Sym by blast
  from star_sym_chars[OF st] obtain k where "c' = c" "t = k @ s'" "\<forall>x \<in> set k. cset_has cs x"
    by blast
  with s x have "x # k \<noteq> [] \<and> s = (x # k) @ s' \<and> (\<forall>y \<in> set (x # k). cset_has cs y)" by simp
  with \<open>c' = c\<close> show ?thesis by blast
qed

lemma group_free_value: "group_free (Cat (Rep1 value_char) (Sym AnyChar))"
  by (simp add: Rep1_def value_char_def)

lemma min_len_value: "min_len (Cat (Rep1 value_char) (Sym AnyChar)) = 2"
  by (simp add: Rep1_def value_char_def)

lemma attribute_match:
  assumes "(c', s') \<in> set (rmatch attribute_regexp [] s)"
  shows "\<exists>k v. c' = [(2, v), (1, k)] \<and> k \<noteq> [] \<and> (\<forall>x \<in> set k. \<not> white_space x) \<and>
           2 \<le> length v \<and> length s' < length s"
proof -
  from assms obtain c1 s1 c2 s2 c3 s3 c4 s4 where
    g1: "(c1, s1) \<in> set (rmatch (Group 1 (Rep1 (Sym NonSp))) [] s)"
    and eq: "(c2, s2) \<in> set (rmatch (Sym (Lit CHR ''='')) c1 s1)"
    and q1: "(c3, s3) \<in> set (rmatch (Opt quote) c2 s2)"
    and g2: "(c4, s4) \<in> set (rmatch (Group 2 (Cat (Rep1 value_char) (Sym AnyChar))) c3 s3)"
    and q2: "(c', s') \<in> set (rmatch (Opt quote) c4 s4)"
    unfolding attribute_regexp_def in_Cat by blast
  from g1 obtain c0 where c1: "c1 = (1, take (length s - length s1) s) # c0"
    and r1: "(c0, s1) \<in> set (rmatch (Rep1 (Sym NonSp)) [] s)"
    unfolding in_Group by blast
  from rep1_sym_chars[OF r1] obtain k where c0: "c0 = []" and k: "k \<noteq> []" "s = k @ s1"
    "\<forall>x \<in> set k. cset_has NonSp x" by blast
  from k have tk: "take (length s - length s1) s = k" by simp
  from eq have c2: "c2 = c1" and l2: "length s2 < length s1" unfolding in_Sym by auto
  have gq: "group_free (Opt quote)" by (simp add: quote_def)
  from rmatch_group_free[OF gq q1] have c3: "c3 = c2" .
  from rmatch_suffix[OF q1] have l3: "length s3 \<le> length s2" by (rule suffix_length_le)
  from g2 obtain c3' where c4: "c4 = (2, take (length s3 - length s4) s3) # c3'"
    and r2: "(c3', s4) \<in> set (rmatch (Cat (Rep1 value_char) (Sym AnyChar)) c3 s3)"
    unfolding in_Group by blast
  from rmatch_group_free[OF group_free_value r2] have c3': "c3' = c3" .
  from rmatch_min_len[OF r2] have l4: "length s4 + 2 \<le> length s3" by (simp only: min_len_value)
  from rmatch_group_free[OF gq q2] have c': "c' = c4" .
  from rmatch_suffix[OF q2] have l5: "length s' \<le> length s4" by (rule suffix_length_le)
  let ?v = "take (length s3 - length s4) s3"
  have "c' = [(2, ?v), (1, k)]" using c' c4 c3' c3 c2 c1 c0 tk by simp
  moreover have "2 \<le> length ?v" using l4 by simp
  moreover have "length s' < length s" using l5 l4 l3 l2 k(2) by simp
  moreover have "\<forall>x \<in> set k. \<not> white_space x" using k(3) by simp
  ultimately show ?thesis using k(1) by blast
qed

lemma exec_attribute:
  assumes "exec attribute_regexp s = Some (skip, m, c, rest)"
  shows "length rest < length s \<and>
         capture 1 c \<noteq> [] \<and> (\<forall>x \<in> set (capture 1 c). \<not> white_space x) \<and> 2 \<le> length (capture 2 c)"
proof -
  from exec_hd[OF assms] obtain t where t: "s = skip @ t" "rmatch attribute_regexp [] t \<noteq> []"
    "hd (rmatch attribute_regexp [] t) = (c, rest)" by blast
  then have "(c, rest) \<in> set (rmatch attribute_regexp [] t)" by (metis hd_in_set)
  from attribute_match[OF this] obtain k v where "c = [(2, v), (1, k)]" "k \<noteq> []"
    "\<forall>x \<in> set k. \<not> white_space x" "2 \<le> length v" "length rest < length t" by blast
  with t(1) show ?thesis by (simp add: capture_def)
qed

definition well_parsed :: "attribute \<Rightarrow> bool" where
  "well_parsed a = (key a \<noteq> [] \<and> (\<forall>x \<in> set (key a). \<not> white_space x) \<and> 2 \<le> length (val a))"

lemma getAttributes_total:
  "\<exists>attributes. getAttributes tag = Some attributes \<and> (\<forall>a \<in> set attributes. well_parsed a)"
proof (induction tag rule: getAttributes.induct)
  case (1 tag)
  show ?case
  proof (cases "exec attribute_regexp tag")
    case None
    then show ?thesis by (subst getAttributes.simps) simp
  next
    case (Some r)
    then obtain skip m c rest where r: "exec attribute_regexp tag = Some (skip, m, c, rest)"
      by (cases r) auto
    from exec_attribute[OF r] have l: "length rest < length tag"
      and w: "well_parsed \<lparr>key = capture 1 c, val = capture 2 c\<rparr>"
      by (simp_all add: well_parsed_def)
    from "1.IH"[OF r refl refl refl l] obtain attributes where
      a: "getAttributes rest = Some attributes" "\<forall>a \<in> set attributes. well_parsed a" by blast
    show ?thesis using w a by (subst getAttributes.simps) (simp add: r l)
  qed
qed

text \<open>
  C10. For every tag text the attribute parser returns (its loop ends), and every
  attribute it returns has a key that is not empty and holds no white space, and a value
  of at least two characters: the value pattern is one or more guarded characters and
  then one more character, so it cannot match a single character.
\<close>

theorem getAttributes_returns_long_values:
  "\<exists>attributes. getAttributes tag = Some attributes \<and>
     (\<forall>a \<in> set attributes.
        key a \<noteq> [] \<and> (\<forall>x \<in> set (key a). \<not> white_space x) \<and> 2 \<le> length (val a))"
  using getAttributes_total[of tag] unfolding well_parsed_def .

lemma getAttributes_example:
  \<open>getAttributes ''<partial src="f.html" a="1" b="2"/>'' =
     Some [\<lparr>key = ''src'', val = ''f.html''\<rparr>,
           \<lparr>key = ''a'', val = [CHR 0x22, CHR ''1'']\<rparr>,
           \<lparr>key = ''b'', val = [CHR 0x22, CHR ''2'']\<rparr>]\<close>
  by code_simp

theorem getAttributes_returns_long_values_witness:
  \<open>getAttributes ''<partial src="f.html" a="1" b="2"/>'' =
     Some [\<lparr>key = ''src'', val = ''f.html''\<rparr>,
           \<lparr>key = ''a'', val = [CHR 0x22, CHR ''1'']\<rparr>,
           \<lparr>key = ''b'', val = [CHR 0x22, CHR ''2'']\<rparr>] \<and>
   list_all (\<lambda>a. key a \<noteq> [] \<and> list_all (\<lambda>x. \<not> white_space x) (key a) \<and> 2 \<le> length (val a))
     [\<lparr>key = ''src'', val = ''f.html''\<rparr>,
      \<lparr>key = ''a'', val = [CHR 0x22, CHR ''1'']\<rparr>,
      \<lparr>key = ''b'', val = [CHR 0x22, CHR ''2'']\<rparr>]\<close>
  using getAttributes_returns_long_values[of \<open>''<partial src="f.html" a="1" b="2"/>''\<close>]
  by (simp add: getAttributes_example list_all_iff)

section \<open>The stream boundary, the settings and the substitutor\<close>

lemma in_force_snoc:
  "in_force sel start (configs @ [cfg]) =
     (case sel cfg of Some v \<Rightarrow> v | None \<Rightarrow> in_force sel start configs)"
proof -
  have l: "(case xs of [] \<Rightarrow> start | v # vs \<Rightarrow> last (v # vs)) = (if xs = [] then start else last xs)"
    for xs :: "string list"
    by (cases xs) simp_all
  show ?thesis
    by (cases "sel cfg") (simp_all add: in_force_def List.map_filter_def l)
qed

lemma in_force_Nil: "in_force sel start [] = start"
  by (simp add: in_force_def List.map_filter_def)

lemma assigned_in_force:
  "foldl assign opts configs =
     \<lparr>tagName = in_force cfg_tagName (tagName opts) configs,
      basePath = in_force cfg_basePath (basePath opts) configs,
      variablePrefix = in_force cfg_variablePrefix (variablePrefix opts) configs\<rparr>"
proof (induction configs rule: rev_induct)
  case Nil
  then show ?case by (simp add: in_force_Nil)
next
  case (snoc cfg configs)
  then show ?case by (simp add: in_force_snoc assign_def split: option.splits)
qed

lemma play_last:
  "play listeners prettyPrint fs depth opts (events @ [File n file]) =
     play listeners prettyPrint fs depth opts events @
     [transform_callback (listeners n) (foldl assign opts (calls events)) prettyPrint fs depth file]"
  by (induction listeners prettyPrint fs depth opts events rule: play.induct) simp_all

lemma play_files:
  "play listeners prettyPrint fs depth opts (events @ [Transform cfg]) =
     play listeners prettyPrint fs depth opts events"
  by (induction listeners prettyPrint fs depth opts events rule: play.induct) simp_all

lemma calls_append: "calls (xs @ ys) = calls xs @ calls ys"
  by (induction xs rule: calls.induct) simp_all

text \<open>
  C8, as the claim states it, fails: a file that is a stream is handed on only when the
  stream of the plugin has a listener for errors. Without one \<^verbatim>\<open>this.emit('error', ...)\<close>
  throws, \<^verbatim>\<open>callback(null, file)\<close> is not reached and the file is not handed on.
\<close>

theorem stream_without_listener_is_not_passed:
  \<open>transform_callback False default_options leave fs_hello 1 (Stream ''<partial src="f.html"/>'') =
     Some \<lparr>passed = None, emitted = [], thrown = Some ''Streams are not supported'', logged = []\<rparr> \<and>
   run (\<lambda>n. False) leave fs_hello 1 [Transform no_keys, File 0 (Stream ''<partial src="f.html"/>'')] =
     [Some \<lparr>passed = None, emitted = [], thrown = Some ''Streams are not supported'', logged = []\<rparr>]\<close>
  by (simp add: transform_callback_def run_def)

text \<open>
  C8, amended. For a file that is a stream the callback raises the error "Streams are
  not supported" and does nothing else. On a stream with a listener for errors the
  listener receives the error and the file is handed on as it came; on a stream without
  one the error is thrown and no file is handed on. The answer is there, and the same,
  for every setting, pretty printer, filesystem and depth, also those for which the
  resolver has no result: the resolver has no part in it. So in a run the answer for
  such a file depends on no call of \<^verbatim>\<open>transform\<close> and on no file before it, and leaves the
  answers for the files before it as they are.
\<close>

theorem transform_rejects_streams:
  "transform_callback listening opts prettyPrint fs depth (Stream x) =
     Some (if listening
           then \<lparr>passed = Some (Stream x), emitted = [''Streams are not supported''],
                 thrown = None, logged = []\<rparr>
           else \<lparr>passed = None, emitted = [],
                 thrown = Some ''Streams are not supported'', logged = []\<rparr>) \<and>
   run listeners prettyPrint fs depth (events @ [File n (Stream x)]) =
     run listeners prettyPrint fs depth events @
     [Some (if listeners n
            then \<lparr>passed = Some (Stream x), emitted = [''Streams are not supported''],
                  thrown = None, logged = []\<rparr>
            else \<lparr>passed = None, emitted = [],
                  thrown = Some ''Streams are not supported'', logged = []\<rparr>)]"
  by (simp add: run_def play_last transform_callback_def)

lemma run_fresh:
  \<open>run (\<lambda>n. True) leave fs_hello 1 [Transform no_keys, File 0 (Buffer ''<partial src="f.html"/>'')] =
     [Some \<lparr>passed = Some (Buffer (CHR 0x0A # ''hello'')), emitted = [], thrown = None, logged = []\<rparr>]\<close>
  by code_simp

lemma run_after_other:
  \<open>run (\<lambda>n. True) leave fs_hello 1
      [Transform only_tagName, Transform no_keys, File 1 (Buffer ''<partial src="f.html"/>'')] =
     [Some \<lparr>passed = Some (Buffer ''<partial src="f.html"/>''), emitted = [], thrown = None, logged = []\<rparr>]\<close>
  by code_simp

text \<open>
  A call of \<^verbatim>\<open>transform\<close> also changes what the streams made before it do: the file below
  goes through the first stream, made with an empty configuration, and is resolved with
  the tag name that the second call set.
\<close>

lemma later_call_changes_earlier_stream:
  \<open>run (\<lambda>n. True) leave fs_hello 1
      [Transform no_keys, Transform only_tagName, File 0 (Buffer ''<partial src="f.html"/>'')] =
     [Some \<lparr>passed = Some (Buffer ''<partial src="f.html"/>''), emitted = [], thrown = None, logged = []\<rparr>]\<close>
  by code_simp

text \<open>
  C9, as the claim states it, fails: the same document, configuration and filesystem
  give another result after a call of \<^verbatim>\<open>transform\<close> that set \<open>tagName\<close>, because the
  settings object is shared and a configuration that leaves a key out leaves the earlier
  value.
\<close>

theorem earlier_invocation_changes_result:
  \<open>run (\<lambda>n. True) leave fs_hello 1
      [Transform only_tagName, Transform no_keys, File 1 (Buffer ''<partial src="f.html"/>'')] \<noteq>
   run (\<lambda>n. True) leave fs_hello 1 [Transform no_keys, File 0 (Buffer ''<partial src="f.html"/>'')]\<close>
  unfolding run_fresh run_after_other by simp

text \<open>
  C9, amended. What the callback answers for a file is a function of the file, the
  filesystem and the settings in force when the file arrives, and of nothing else of
  the run. The setting in force for a key is the value that the latest call of
  \<^verbatim>\<open>transform\<close> that gave the key gave it, whatever stream that call made, and the default
  value when no call gave the key: a configuration is laid over what the calls before
  it left, and a key it leaves out keeps its earlier value. So a file that arrives
  right after a call whose configuration gives all three keys is handled with those
  three values, whatever happened before.
\<close>

theorem settings_in_force_decide:
  "run listeners prettyPrint fs depth (events @ [File n file]) =
     run listeners prettyPrint fs depth events @
     [transform_callback (listeners n)
        \<lparr>tagName = in_force cfg_tagName ''partial'' (calls events),
         basePath = in_force cfg_basePath [] (calls events),
         variablePrefix = in_force cfg_variablePrefix ''@@'' (calls events)\<rparr>
        prettyPrint fs depth file] \<and>
   run listeners prettyPrint fs depth
     (events @ [Transform \<lparr>cfg_tagName = Some t, cfg_basePath = Some b, cfg_variablePrefix = Some v\<rparr>,
                File n file]) =
     run listeners prettyPrint fs depth events @
     [transform_callback (listeners n) \<lparr>tagName = t, basePath = b, variablePrefix = v\<rparr>
        prettyPrint fs depth file]"
proof
  show "run listeners prettyPrint fs depth (events @ [File n file]) =
     run listeners prettyPrint fs depth events @
     [transform_callback (listeners n)
        \<lparr>tagName = in_force cfg_tagName ''partial'' (calls events),
         basePath = in_force cfg_basePath [] (calls events),
         variablePrefix = in_force cfg_variablePrefix ''@@'' (calls events)\<rparr>
        prettyPrint fs depth file]"
    unfolding run_def play_last assigned_in_force by (simp add: default_options_def)
  let ?cfg = "\<lparr>cfg_tagName = Some t, cfg_basePath = Some b, cfg_variablePrefix = Some v\<rparr>"
  have "play listeners prettyPrint fs depth default_options ((events @ [Transform ?cfg]) @ [File n file]) =
      play listeners prettyPrint fs depth default_options (events @ [Transform ?cfg]) @
      [transform_callback (listeners n) (foldl assign default_options (calls (events @ [Transform ?cfg])))
         prettyPrint fs depth file]"
    by (rule play_last)
  then show "run listeners prettyPrint fs depth (events @ [Transform ?cfg, File n file]) =
     run listeners prettyPrint fs depth events @
     [transform_callback (listeners n) \<lparr>tagName = t, basePath = b, variablePrefix = v\<rparr>
        prettyPrint fs depth file]"
    by (simp add: run_def play_files calls_append assign_def)
qed

text \<open>
  C3. The document \<^verbatim>\<open><partial src="f.html" a="1" b="2"/>\<close> with \<^verbatim>\<open>@@a-@@b\<close> in f.html
  resolves to a line break and \<^verbatim>\<open>"1-"2\<close>: the value pattern cannot match the one
  character between the quotes, so it takes the opening quote with it. The text
  \<^verbatim>\<open>1-2\<close> is not in the result.
\<close>

theorem multiple_variables_keep_quote:
  \<open>injectHTML default_options leave fs_multiple 1 ''<partial src="f.html" a="1" b="2"/>'' =
     Some ([CHR 0x0A, CHR 0x22] @ ''1-'' @ [CHR 0x22] @ ''2'', []) \<and>
   \<not> sublist ''1-2'' ([CHR 0x0A, CHR 0x22] @ ''1-'' @ [CHR 0x22] @ ''2'')\<close>
  by code_simp

text \<open>
  C1. Three levels: the document includes B.html with \<^verbatim>\<open>title="X"\<close>, and B.html includes
  C.html with \<^verbatim>\<open>title="Y"\<close>. Every level is resolved, but each \<^verbatim>\<open>@@title\<close> gives way to
  the value with its opening quote, \<^verbatim>\<open>"X\<close> and \<^verbatim>\<open>"Y\<close>, not to \<^verbatim>\<open>X\<close> and \<^verbatim>\<open>Y\<close>.
\<close>

theorem three_levels_keep_quote:
  \<open>injectHTML default_options leave fs_three 2 ''<partial src="B.html" title="X"/>'' =
     Some ([CHR 0x0A] @ ''<h1>'' @ [CHR 0x22] @ ''X</h1>'' @ [CHR 0x0A] @ ''<p>'' @ [CHR 0x22] @ ''Y</p>'',
           [])\<close>
  by code_simp

text \<open>With values of two characters or more the three levels resolve as written.\<close>

lemma three_levels_long_values:
  \<open>injectHTML default_options leave
      (map_of [(''B.html'', ''<h1>@@title</h1><partial src="C.html" title="World"/>''),
               (''C.html'', ''<p>@@title</p>'')])
      2 ''<partial src="B.html" title="Hello"/>'' =
     Some ([CHR 0x0A] @ ''<h1>Hello</h1>'' @ [CHR 0x0A] @ ''<p>World</p>'', [])\<close>
  by code_simp

text \<open>
  C6. The value \<^verbatim>\<open>$$5\<close> is not put in as it is: the replacement text is a template, in
  which \<^verbatim>\<open>$$\<close> stands for one dollar sign.
\<close>

theorem dollar_value_is_altered:
  \<open>replaceAttributes default_options (Some ''Price: @@p'') [\<lparr>key = ''p'', val = ''$$5''\<rparr>] =
     ''Price: $5'' \<and>
   injectHTML default_options leave fs_price 1 ''<partial src="f.html" p="$$5"/>'' =
     Some (CHR 0x0A # ''Price: $5'', [])\<close>
  by code_simp



section \<open>The formatter\<close>

lemma replace_literal_before:
  "CHR ''$'' \<notin> set w \<Longrightarrow> replace_literal w (CHR 0x0A # w) pre s = break_before w s"
proof (induction w s arbitrary: pre rule: break_before.induct)
  case (1 w)
  then show ?case by simp
next
  case (2 w x xs)
  from "2.prems" have g: "\<And>m p q. getSubstitution (CHR 0x0A # w) m p q = CHR 0x0A # w"
    by (intro getSubstitution_plain) simp
  show ?case
  proof (cases "w \<noteq> [] \<and> prefix w (x # xs)")
    case True
    then have l: "replace_literal w (CHR 0x0A # w) pre (x # xs) =
        getSubstitution (CHR 0x0A # w) w pre (drop (length w) (x # xs)) @
        replace_literal w (CHR 0x0A # w) (pre @ w) (drop (length w) (x # xs))"
      by (simp add: replace_literal.simps(2))
    from True have r: "break_before w (x # xs) = CHR 0x0A # w @ break_before w (drop (length w) (x # xs))"
      by (simp add: break_before.simps(2))
    show ?thesis by (simp only: l r g "2.IH"(1)[OF True "2.prems"]) simp
  next
    case False
    then have l: "replace_literal w (CHR 0x0A # w) pre (x # xs) = x # replace_literal w (CHR 0x0A # w) (pre @ [x]) xs"
      by (auto simp: replace_literal.simps(2))
    from False have r: "break_before w (x # xs) = x # break_before w xs"
      by (auto simp: break_before.simps(2))
    show ?thesis by (simp only: l r "2.IH"(2)[OF False "2.prems"])
  qed
qed

lemma replace_literal_after:
  "CHR ''$'' \<notin> set w \<Longrightarrow> replace_literal w (w @ [CHR 0x0A]) pre s = break_after w s"
proof (induction w s arbitrary: pre rule: break_after.induct)
  case (1 w)
  then show ?case by simp
next
  case (2 w x xs)
  from "2.prems" have g: "\<And>m p q. getSubstitution (w @ [CHR 0x0A]) m p q = w @ [CHR 0x0A]"
    by (intro getSubstitution_plain) simp
  show ?case
  proof (cases "w \<noteq> [] \<and> prefix w (x # xs)")
    case True
    then have l: "replace_literal w (w @ [CHR 0x0A]) pre (x # xs) =
        getSubstitution (w @ [CHR 0x0A]) w pre (drop (length w) (x # xs)) @
        replace_literal w (w @ [CHR 0x0A]) (pre @ w) (drop (length w) (x # xs))"
      by (simp add: replace_literal.simps(2))
    from True have r: "break_after w (x # xs) = w @ CHR 0x0A # break_after w (drop (length w) (x # xs))"
      by (simp add: break_after.simps(2))
    show ?thesis by (simp only: l r g "2.IH"(1)[OF True "2.prems"]) simp
  next
    case False
    then have l: "replace_literal w (w @ [CHR 0x0A]) pre (x # xs) = x # replace_literal w (w @ [CHR 0x0A]) (pre @ [x]) xs"
      by (auto simp: replace_literal.simps(2))
    from False have r: "break_after w (x # xs) = x # break_after w xs"
      by (auto simp: break_after.simps(2))
    show ?thesis by (simp only: l r "2.IH"(2)[OF False "2.prems"])
  qed
qed

lemma linebreak_CRLF:
  "rmatch linebreak_regexp [] (CHR 0x0D # CHR 0x0A # t) = [([], t), ([], CHR 0x0A # t)]"
  by (simp add: linebreak_regexp_def)

lemma linebreak_one:
  "c = CHR 0x0D \<or> c = CHR 0x0A \<Longrightarrow> \<not> (c = CHR 0x0D \<and> t \<noteq> [] \<and> hd t = CHR 0x0A) \<Longrightarrow>
     rmatch linebreak_regexp [] (c # t) = [([], t)]"
  by (cases t) (auto simp: linebreak_regexp_def)

lemma linebreak_none:
  "c \<noteq> CHR 0x0D \<Longrightarrow> c \<noteq> CHR 0x0A \<Longrightarrow> rmatch linebreak_regexp [] (c # t) = []"
  by (cases t) (auto simp: linebreak_regexp_def)

lemma linebreak_empty: "rmatch linebreak_regexp [] [] = []"
  by (simp add: linebreak_regexp_def)

lemma replace_linebreaks: "replace_from linebreak_regexp '' '' pre s = collapse s"
proof (induction s arbitrary: pre rule: collapse.induct)
  case 1
  then show ?case by (simp add: replace_from_empty linebreak_empty)
next
  case (2 c)
  show ?case
  proof (cases "c = CHR 0x0D \<or> c = CHR 0x0A")
    case True
    then have m: "rmatch linebreak_regexp [] [c] = ([], []) # []" by (simp add: linebreak_one)
    have "replace_from linebreak_regexp '' '' pre [c] =
        getSubstitution '' '' [c] pre [] @ replace_from linebreak_regexp '' '' (pre @ [c]) []"
      by (rule replace_from_match[OF m]) simp_all
    then show ?thesis using True by (auto simp: replace_from_empty linebreak_empty)
  next
    case False
    then have m: "rmatch linebreak_regexp [] [c] = []" by (simp add: linebreak_none)
    have "replace_from linebreak_regexp '' '' pre [c] =
        c # replace_from linebreak_regexp '' '' (pre @ [c]) []"
      by (rule replace_from_skip[OF m])
    then show ?thesis using False by (simp add: replace_from_empty linebreak_empty)
  qed
next
  case (3 c d t)
  consider (crlf) "c = CHR 0x0D" "d = CHR 0x0A"
    | (one) "c = CHR 0x0D \<or> c = CHR 0x0A" "\<not> (c = CHR 0x0D \<and> d = CHR 0x0A)"
    | (none) "c \<noteq> CHR 0x0D" "c \<noteq> CHR 0x0A" by blast
  then show ?case
  proof cases
    case crlf
    then have m: "rmatch linebreak_regexp [] (c # d # t) = ([], t) # [([], CHR 0x0A # t)]"
      by (simp add: linebreak_CRLF)
    have "replace_from linebreak_regexp '' '' pre (c # d # t) =
        getSubstitution '' '' [c, d] pre t @ replace_from linebreak_regexp '' '' (pre @ [c, d]) t"
      by (rule replace_from_match[OF m]) simp_all
    then show ?thesis using crlf "3.IH"(1) by simp
  next
    case one
    then have m: "rmatch linebreak_regexp [] (c # d # t) = ([], d # t) # []"
      by (intro linebreak_one) auto
    have "replace_from linebreak_regexp '' '' pre (c # d # t) =
        getSubstitution '' '' [c] pre (d # t) @ replace_from linebreak_regexp '' '' (pre @ [c]) (d # t)"
      by (rule replace_from_match[OF m]) simp_all
    then show ?thesis using one "3.IH"(2) by auto
  next
    case none
    then have m: "rmatch linebreak_regexp [] (c # d # t) = []" by (simp add: linebreak_none)
    have "replace_from linebreak_regexp '' '' pre (c # d # t) =
        c # replace_from linebreak_regexp '' '' (pre @ [c]) (d # t)"
      by (rule replace_from_skip[OF m])
    then show ?thesis using none "3.IH"(3) by simp
  qed
qed

lemma collapse_no_breaks: "CHR 0x0D \<notin> set (collapse s) \<and> CHR 0x0A \<notin> set (collapse s)"
  by (induction s rule: collapse.induct) auto

lemma collapse_unbroken: "CHR 0x0D \<notin> set s \<Longrightarrow> CHR 0x0A \<notin> set s \<Longrightarrow> collapse s = s"
  by (induction s rule: collapse.induct) auto

lemma collapse_collapse: "collapse (collapse s) = collapse s"
  using collapse_no_breaks[of s] by (simp add: collapse_unbroken)

lemma pattern_text_plain: "set s \<inter> set syntax_chars = {} \<Longrightarrow> pattern_text s = Some s"
proof (induction s rule: pattern_text.induct)
  case 1
  then show ?case by simp
next
  case (2 c)
  then show ?case by simp
next
  case (3 c d t)
  from "3.prems" have c: "c \<notin> set syntax_chars" and r: "set (d # t) \<inter> set syntax_chars = {}"
    by auto
  from c have "c \<noteq> CHR 0x5C" by (auto simp: syntax_chars_def)
  with c "3.IH"(2) r show ?case by simp
qed

lemma format_collapse: "format opts (collapse content) = format opts content"
  by (simp add: format_def replace_g_def replace_linebreaks collapse_collapse split: option.splits)

lemma dollar_syntax: "CHR ''$'' \<in> set syntax_chars"
  by (simp add: syntax_chars_def)

lemma format_reading:
  assumes "set (tagName opts) \<inter> set syntax_chars = {}"
  shows "format opts content =
     Some (break_after (tagName opts @ ''>'') (break_before (''<'' @ tagName opts) (collapse content)))"
proof -
  from assms dollar_syntax have d: "CHR ''$'' \<notin> set (tagName opts)" by auto
  then have a: "CHR ''$'' \<notin> set (''<'' @ tagName opts)"
    and b: "CHR ''$'' \<notin> set (tagName opts @ ''>'')" by auto
  from assms have "set (''<'' @ tagName opts) \<inter> set syntax_chars = {}"
    and "set (tagName opts @ ''>'') \<inter> set syntax_chars = {}"
    by (auto simp: syntax_chars_def)
  then have p: "pattern_text (''<'' @ tagName opts) = Some (''<'' @ tagName opts)"
    and q: "pattern_text (tagName opts @ ''>'') = Some (tagName opts @ ''>'')"
    by (simp_all only: pattern_text_plain)
  show ?thesis
    unfolding format_def RegExp_def p q
    using replace_literal_before[OF a] replace_literal_after[OF b]
    by (simp add: replace_g_def replace_linebreaks replace_from_Str)
qed

section \<open>Tags that cannot be resolved\<close>

lemma replace_g_Str_empty: "w \<noteq> [] \<Longrightarrow> replace_g (Str w) t [] = []"
  by (simp add: replace_g_def replace_from_Str)

lemma replaceAttributes_of_nothing:
  "\<forall>a \<in> set attributes. key a \<noteq> [] \<Longrightarrow> (case content of Some f \<Rightarrow> f | None \<Rightarrow> []) = [] \<Longrightarrow>
     replaceAttributes opts content attributes = []"
proof (induction attributes arbitrary: content)
  case Nil
  then show ?case by (simp add: replaceAttributes_Nil)
next
  case (Cons a attributes)
  from Cons.prems have "variablePrefix opts @ key a \<noteq> []" by simp
  then have "replace_g (Str (variablePrefix opts @ key a)) (val a) [] = []"
    by (rule replace_g_Str_empty)
  with Cons.prems show ?case by (simp add: replaceAttributes_Cons Cons.IH)
qed

lemma replaceAttributes_None:
  "\<forall>a \<in> set attributes. key a \<noteq> [] \<Longrightarrow> replaceAttributes opts None attributes = []"
  by (rule replaceAttributes_of_nothing) simp_all

lemma getPartial_unresolved:
  assumes keys: "\<forall>a \<in> set attributes. key a \<noteq> []"
    and vals: "\<forall>a \<in> set attributes. val a \<noteq> []"
    and src: "sourcePath attributes = None \<or>
              (\<exists>p. sourcePath attributes = Some p \<and> fs (basePath opts @ p) = None)"
  shows "getPartial opts prettyPrint fs depth attributes = Some ([], [complaint opts attributes])"
proof -
  let ?rest = "filter (Not \<circ> (\<lambda>attribute. key attribute = ''src'')) attributes"
  from keys have "\<forall>a \<in> set ?rest. key a \<noteq> []" by simp
  then have e: "replaceAttributes opts None ?rest = []" by (rule replaceAttributes_None)
  from src show ?thesis
  proof
    assume n: "sourcePath attributes = None"
    then show ?thesis
      by (subst getPartial.simps)
         (simp add: e complaint_def sourcePath_def split: list.splits)
  next
    assume "\<exists>p. sourcePath attributes = Some p \<and> fs (basePath opts @ p) = None"
    then obtain p where p: "sourcePath attributes = Some p" "fs (basePath opts @ p) = None" by blast
    then obtain a as where f: "filter (\<lambda>attribute. key attribute = ''src'') attributes = a # as"
      and pa: "p = val a" by (auto simp: sourcePath_def split: list.splits)
    have "a \<in> set (filter (\<lambda>attribute. key attribute = ''src'') attributes)" by (simp add: f)
    then have "a \<in> set attributes" by simp
    with vals pa have "p \<noteq> []" by simp
    with p f pa show ?thesis
      by (subst getPartial.simps) (simp add: e complaint_def sourcePath_def)
  qed
qed

lemma getPartials_append:
  "getPartials opts prettyPrint fs depth (xs @ ys) =
     (case getPartials opts prettyPrint fs depth xs of
        None \<Rightarrow> None
      | Some (ps, log) \<Rightarrow>
          (case getPartials opts prettyPrint fs depth ys of
             None \<Rightarrow> None
           | Some (ps', log') \<Rightarrow> Some (ps @ ps', log @ log')))"
  by (induction xs) (auto split: option.splits)

text \<open>
  What holds for every tag the scanner hands on: when its attributes hold no \<^verbatim>\<open>src\<close> key,
  or its path \<^verbatim>\<open>basePath + src\<close> names no file, the tag resolves to the empty text and
  logs exactly one line (with the path, when the file is missing), and the partials and
  log lines of the tags before and after it are what they are without it.
\<close>

lemma unresolved_tag_among_others:
  assumes "getAttributes tag = Some attributes"
    and "sourcePath attributes = None \<or>
         (\<exists>p. sourcePath attributes = Some p \<and> fs (basePath opts @ p) = None)"
  shows "getPartial opts prettyPrint fs depth attributes = Some ([], [complaint opts attributes])"
    and "getPartials opts prettyPrint fs depth (before @ tag # after) =
           (case getPartials opts prettyPrint fs depth before of
              None \<Rightarrow> None
            | Some (ps, log) \<Rightarrow>
                (case getPartials opts prettyPrint fs depth after of
                   None \<Rightarrow> None
                 | Some (ps', log') \<Rightarrow>
                     Some (ps @ [] # ps', log @ complaint opts attributes # log')))"
proof -
  from getAttributes_total[of tag] assms(1) have w: "\<forall>a \<in> set attributes. well_parsed a" by simp
  then have keys: "\<forall>a \<in> set attributes. key a \<noteq> []" and vals: "\<forall>a \<in> set attributes. val a \<noteq> []"
    by (auto simp: well_parsed_def)
  show p: "getPartial opts prettyPrint fs depth attributes = Some ([], [complaint opts attributes])"
    by (rule getPartial_unresolved[OF keys vals assms(2)])
  have "getPartials opts prettyPrint fs depth (tag # after) =
          (case getPartials opts prettyPrint fs depth after of
             None \<Rightarrow> None
           | Some (ps', log') \<Rightarrow> Some ([] # ps', complaint opts attributes # log'))"
    by (simp add: assms(1) p split: option.splits)
  then show "getPartials opts prettyPrint fs depth (before @ tag # after) =
           (case getPartials opts prettyPrint fs depth before of
              None \<Rightarrow> None
            | Some (ps, log) \<Rightarrow>
                (case getPartials opts prettyPrint fs depth after of
                   None \<Rightarrow> None
                 | Some (ps', log') \<Rightarrow>
                     Some (ps @ [] # ps', log @ complaint opts attributes # log')))"
    by (simp add: getPartials_append split: option.splits)
qed

section \<open>The attribute parser on tags as they are written\<close>

lemma first_Cat:
  "first a c s = Some (c1, s1) \<Longrightarrow> first b c1 s1 = Some x \<Longrightarrow> first (Cat a b) c s = Some x"
  by (auto simp: first_def split: list.splits)

lemma first_Cat_later:
  assumes "rmatch a c s = pre @ (c1, s1) # post"
    and "\<forall>(c', s') \<in> set pre. rmatch b c' s' = []"
    and "first b c1 s1 = Some x"
  shows "first (Cat a b) c s = Some x"
proof -
  from assms(2) have "concat (map (\<lambda>(c', s'). rmatch b c' s') pre) = []" by auto
  with assms(1) have "rmatch (Cat a b) c s =
      rmatch b c1 s1 @ concat (map (\<lambda>(c', s'). rmatch b c' s') post)" by simp
  with assms(3) show ?thesis by (cases "rmatch b c1 s1") (simp_all add: first_def)
qed

lemma first_Sym: "cset_has cs x \<Longrightarrow> first (Sym cs) c (x # xs) = Some (c, xs)"
  by (simp add: first_def)

lemma first_Opt:
  "first a c s = Some (c', s') \<Longrightarrow> length s' < length s \<Longrightarrow> first (Opt a) c s = Some (c', s')"
  by (auto simp: first_def split: list.splits)

lemma first_Opt_none: "rmatch a c s = [] \<Longrightarrow> first (Opt a) c s = Some (c, s)"
  by (simp add: first_def)

lemma first_Group:
  "first a c s = Some (c', s') \<Longrightarrow>
     first (Group n a) c s = Some ((n, take (length s - length s') s) # c', s')"
  by (auto simp: first_def split: list.splits)

lemma star_unfold_one:
  "rmatch a c s = [(c1, s1)] \<Longrightarrow> length s1 < length s \<Longrightarrow>
     rmatch (Star a) c s = rmatch (Star a) c1 s1 @ [(c, s)]"
  by (subst rmatch.simps) simp

lemma star_unfold_none: "rmatch a c s = [] \<Longrightarrow> rmatch (Star a) c s = [(c, s)]"
  by (subst rmatch.simps) simp

lemma star_last: "\<exists>xs. rmatch (Star a) c s = xs @ [(c, s)]"
  by (subst rmatch.simps) simp

text \<open>The greedy run of one character class: longer runs come first.\<close>

lemma star_sym_append:
  "\<forall>x \<in> set k. cset_has cs x \<Longrightarrow>
     \<exists>ys. rmatch (Star (Sym cs)) c (k @ t) = rmatch (Star (Sym cs)) c t @ ys"
proof (induction k)
  case Nil
  then show ?case by simp
next
  case (Cons x k)
  then obtain ys where ys: "rmatch (Star (Sym cs)) c (k @ t) = rmatch (Star (Sym cs)) c t @ ys" by auto
  from Cons.prems have "rmatch (Sym cs) c ((x # k) @ t) = [(c, k @ t)]" by simp
  from star_unfold_one[OF this] have
    "rmatch (Star (Sym cs)) c ((x # k) @ t) = rmatch (Star (Sym cs)) c (k @ t) @ [(c, (x # k) @ t)]"
    by simp
  with ys show ?case by simp
qed

lemma star_sym_longer:
  assumes "rmatch (Star (Sym cs)) c t = xs @ [(c, t)]" and "(c', s') \<in> set xs"
  shows "c' = c \<and> (\<exists>u. u \<noteq> [] \<and> t = u @ s' \<and> (\<forall>x \<in> set u. cset_has cs x))"
proof -
  from assms have m: "(c', s') \<in> set (rmatch (Star (Sym cs)) c t)" by simp
  from star_sym_chars[OF m] obtain u where u: "c' = c" "t = u @ s'" "\<forall>x \<in> set u. cset_has cs x"
    by blast
  have "u \<noteq> []"
  proof
    assume "u = []"
    with u have e: "(c', s') = (c, t)" by simp
    from assms(2) e have "(c, t) \<in> set xs" by simp
    then obtain i where i: "i < length xs" "xs ! i = (c, t)" by (auto simp: in_set_conv_nth)
    have "distinct (map snd (rmatch (Star (Sym cs)) c t))"
    proof (induction t)
      case Nil
      then show ?case by (simp add: star_unfold_none)
    next
      case (Cons y ys)
      show ?case
      proof (cases "cset_has cs y")
        case True
        then have "rmatch (Sym cs) c (y # ys) = [(c, ys)]" by simp
        from star_unfold_one[OF this]
        have r: "rmatch (Star (Sym cs)) c (y # ys) = rmatch (Star (Sym cs)) c ys @ [(c, y # ys)]" by simp
        have "y # ys \<notin> snd ` set (rmatch (Star (Sym cs)) c ys)"
        proof
          assume "y # ys \<in> snd ` set (rmatch (Star (Sym cs)) c ys)"
          then obtain cc where "(cc, y # ys) \<in> set (rmatch (Star (Sym cs)) c ys)" by auto
          from rmatch_suffix[OF this] have "length (y # ys) \<le> length ys" by (rule suffix_length_le)
          then show False by simp
        qed
        with Cons r show ?thesis by simp
      next
        case False
        then have "rmatch (Sym cs) c (y # ys) = []" by simp
        then show ?thesis by (simp add: star_unfold_none)
      qed
    qed
    with assms(1) have "distinct (map snd xs @ [t])" by simp
    then have "t \<notin> snd ` set xs" by auto
    with \<open>(c, t) \<in> set xs\<close> show False by force
  qed
  with u show ?thesis by blast
qed

lemma value_char_ahead: "value_char = Cat (Sym AnyChar) (NotAhead ahead)"
  by (simp add: value_char_def ahead_def)

lemma value_char_step:
  "\<not> line_terminator x \<Longrightarrow> rmatch ahead c xs = [] \<Longrightarrow> rmatch value_char c (x # xs) = [(c, xs)]"
  by (simp add: value_char_ahead)

lemma value_char_stop:
  "rmatch ahead c xs \<noteq> [] \<Longrightarrow> rmatch value_char c (x # xs) = []"
  by (simp add: value_char_ahead)

lemma set_takeWhile_append:
  "set (takeWhile P (a @ b)) \<subseteq> set a \<union> set (takeWhile P b)"
  by (induction a) auto

lemma takeWhile_reaches:
  "\<forall>x \<in> set u. P x \<Longrightarrow> P y \<Longrightarrow> y \<in> set (takeWhile P (u @ y # r))"
  by (induction u) auto

lemma dropWhile_reaches:
  "\<forall>x \<in> set w. P x \<Longrightarrow> n \<noteq> [] \<Longrightarrow> \<not> P (hd n) \<Longrightarrow> dropWhile P (w @ n @ r) = n @ r"
  by (induction w) (auto simp: neq_Nil_conv)

lemma next_attribute_fails:
  assumes q: "s = [] \<or> hd s \<notin> {CHR 0x22, CHR 0x27}"
    and e: "CHR ''='' \<notin> set (takeWhile (\<lambda>x. \<not> white_space x) (dropWhile white_space s))"
  shows "rmatch next_attribute c s = []"
proof (rule ccontr)
  assume "rmatch next_attribute c s \<noteq> []"
  then obtain c' s' where "(c', s') \<in> set (rmatch next_attribute c s)"
    by (cases "rmatch next_attribute c s") auto
  then obtain c1 s1 c2 s2 c3 s3 where
    o: "(c1, s1) \<in> set (rmatch (Opt quote) c s)"
    and w: "(c2, s2) \<in> set (rmatch (Rep1 (Sym WhiteSp)) c1 s1)"
    and n: "(c3, s3) \<in> set (rmatch (Rep1 (Sym NonSp)) c2 s2)"
    and l: "(c', s') \<in> set (rmatch (Sym (Lit CHR ''='')) c3 s3)"
    unfolding next_attribute_def in_Cat by blast
  from o q have s1: "s1 = s" unfolding in_Opt quote_def in_Sym by auto
  from rep1_sym_chars[OF w] obtain W where W: "W \<noteq> []" "s1 = W @ s2" "\<forall>x \<in> set W. white_space x"
    by auto
  from rep1_sym_chars[OF n] obtain N where N: "N \<noteq> []" "s2 = N @ s3" "\<forall>x \<in> set N. \<not> white_space x"
    by auto
  from l have s3: "s3 = CHR ''='' # s'" unfolding in_Sym by auto
  from N(1,3) have hn: "\<not> white_space (hd N)" by (cases N) auto
  have "dropWhile white_space s = N @ CHR ''='' # s'"
    using dropWhile_reaches[OF W(3) N(1) hn, of "CHR ''='' # s'"] s1 W(2) N(2) s3 by simp
  moreover have "CHR ''='' \<in> set (takeWhile (\<lambda>x. \<not> white_space x) (N @ CHR ''='' # s'))"
    by (rule takeWhile_reaches) (use N(3) in \<open>auto simp: white_space_def\<close>)
  ultimately show False using e by simp
qed

lemma ahead_fails:
  assumes "s \<noteq> []" "hd s \<notin> {CHR ''>'', CHR 0x22, CHR 0x27}"
    and "CHR ''='' \<notin> set (takeWhile (\<lambda>x. \<not> white_space x) (dropWhile white_space s))"
  shows "rmatch ahead c s = []"
proof -
  from assms(1,2) have "s = [] \<or> hd s \<notin> {CHR 0x22, CHR 0x27}" by auto
  from next_attribute_fails[OF this assms(3)] have "rmatch next_attribute c s = []" .
  moreover from assms(1,2) have "rmatch (Sym (OneOf [CHR ''>'', CHR 0x22, CHR 0x27])) c s = []"
    by (cases s) auto
  ultimately show ?thesis by (simp add: ahead_def)
qed

lemma ahead_quote: "rmatch ahead c (CHR 0x22 # s) \<noteq> []"
  by (simp add: ahead_def)

lemma no_key_after_value:
  assumes u: "CHR ''='' \<notin> set u" and t: "CHR ''='' \<notin> set (takeWhile (\<lambda>x. \<not> white_space x) tail)"
  shows "CHR ''='' \<notin> set (takeWhile (\<lambda>x. \<not> white_space x)
            (dropWhile white_space (u @ CHR 0x22 # tail)))"
  using u
proof (induction u)
  case Nil
  have "\<not> white_space (CHR 0x22)" by (simp add: white_space_def)
  with t show ?case by simp
next
  case (Cons x u)
  show ?case
  proof (cases "white_space x")
    case True
    with Cons show ?thesis by simp
  next
    case False
    have "set (takeWhile (\<lambda>x. \<not> white_space x) ((x # u) @ CHR 0x22 # tail)) \<subseteq>
          set (x # u) \<union> set (takeWhile (\<lambda>x. \<not> white_space x) (CHR 0x22 # tail))"
      by (rule set_takeWhile_append)
    also have "\<dots> \<subseteq> set (x # u) \<union> ({CHR 0x22} \<union> set (takeWhile (\<lambda>x. \<not> white_space x) tail))"
      by auto
    finally have "CHR ''='' \<notin> set (takeWhile (\<lambda>x. \<not> white_space x) ((x # u) @ CHR 0x22 # tail))"
      using Cons.prems t by auto
    with False show ?thesis by simp
  qed
qed

lemma first_append: "first r c s = Some x \<Longrightarrow> rmatch r c s = xs \<Longrightarrow> \<exists>ys. xs = x # ys"
  by (auto simp: first_def split: list.splits)

lemma star_value_first:
  assumes "\<forall>u x w'. w = u @ x # w' \<longrightarrow> \<not> line_terminator x \<and> rmatch ahead c (w' @ rest) = []"
    and "rmatch value_char c rest = []"
  shows "first (Star value_char) c (w @ rest) = Some (c, rest)"
  using assms(1)
proof (induction w)
  case Nil
  from star_unfold_none[OF assms(2)] show ?case by (simp add: first_def)
next
  case (Cons x w)
  from Cons.prems[rule_format, of "[]" x w] have x: "\<not> line_terminator x"
    and a: "rmatch ahead c (w @ rest) = []" by auto
  have ih: "first (Star value_char) c (w @ rest) = Some (c, rest)"
  proof (rule Cons.IH, intro allI impI)
    fix u y w' assume "w = u @ y # w'"
    then have "x # w = (x # u) @ y # w'" by simp
    from Cons.prems[rule_format, OF this]
    show "\<not> line_terminator y \<and> rmatch ahead c (w' @ rest) = []" .
  qed
  from value_char_step[OF x a] have "rmatch value_char c ((x # w) @ rest) = [(c, w @ rest)]" by simp
  from star_unfold_one[OF this]
  have "rmatch (Star value_char) c ((x # w) @ rest) =
          rmatch (Star value_char) c (w @ rest) @ [(c, (x # w) @ rest)]" by simp
  with ih show ?case by (auto simp: first_def split: list.splits)
qed

lemma value_first:
  assumes v: "plain_value v" and t: "quiet tail"
  shows "first (Cat (Rep1 value_char) (Sym AnyChar)) c (v @ CHR 0x22 # tail) = Some (c, CHR 0x22 # tail)"
proof -
  from v obtain x w l where vs: "v = x # w @ [l]"
    by (cases v; cases "tl v" rule: rev_cases) (auto simp: plain_value_def)
  have inner: "\<not> line_terminator y \<and> rmatch ahead c (w' @ l # CHR 0x22 # tail) = []"
    if "x # w = u @ y # w'" for u y w'
  proof -
    from that vs have mem: "y \<in> set v" and sub: "set (w' @ [l]) \<subseteq> set v"
      by (auto simp: Cons_eq_append_conv)
    from mem v have y: "\<not> line_terminator y" by (simp add: plain_value_def)
    let ?s = "(w' @ [l]) @ CHR 0x22 # tail"
    from sub v have hd: "hd ?s \<notin> {CHR ''>'', CHR 0x22, CHR 0x27}"
      by (cases w') (auto simp: plain_value_def)
    from sub v have "CHR ''='' \<notin> set (w' @ [l])" by (auto simp: plain_value_def)
    from no_key_after_value[OF this] t
    have "CHR ''='' \<notin> set (takeWhile (\<lambda>x. \<not> white_space x) (dropWhile white_space ?s))"
      by (simp add: quiet_def)
    from ahead_fails[OF _ hd this] have "rmatch ahead c ?s = []" by simp
    with y show ?thesis by simp
  qed
  have stop: "rmatch value_char c (l # CHR 0x22 # tail) = []"
    by (rule value_char_stop) (rule ahead_quote)
  from inner[of "[]" x w] have x: "\<not> line_terminator x"
    and a: "rmatch ahead c (w @ l # CHR 0x22 # tail) = []" by auto
  have st: "first (Star value_char) c (w @ l # CHR 0x22 # tail) = Some (c, l # CHR 0x22 # tail)"
  proof (rule star_value_first[OF _ stop], intro allI impI)
    fix u y w' assume "w = u @ y # w'"
    then have "x # w = (x # u) @ y # w'" by simp
    from inner[OF this] show "\<not> line_terminator y \<and> rmatch ahead c (w' @ l # CHR 0x22 # tail) = []" .
  qed
  have "first value_char c (v @ CHR 0x22 # tail) = Some (c, w @ l # CHR 0x22 # tail)"
    using value_char_step[OF x a] by (simp add: first_def vs)
  from first_Cat[OF this st] have r: "first (Rep1 value_char) c (v @ CHR 0x22 # tail) =
      Some (c, l # CHR 0x22 # tail)" by (simp add: Rep1_def)
  from vs v have "\<not> line_terminator l" by (simp add: plain_value_def)
  then have "first (Sym AnyChar) c (l # CHR 0x22 # tail) = Some (c, CHR 0x22 # tail)"
    by (simp add: first_Sym)
  from first_Cat[OF r this] show ?thesis .
qed

lemma rep1_sym_decompose:
  assumes k: "k \<noteq> []" "\<forall>x \<in> set k. cset_has cs x"
  shows "\<exists>xs ys. rmatch (Rep1 (Sym cs)) c (k @ t) = xs @ (c, t) # ys \<and>
           (\<forall>(c', s') \<in> set xs. \<exists>u. u \<noteq> [] \<and> t = u @ s' \<and> (\<forall>x \<in> set u. cset_has cs x))"
proof -
  from k obtain x k' where kk: "k = x # k'" by (cases k) auto
  with k have "rmatch (Rep1 (Sym cs)) c (k @ t) = rmatch (Star (Sym cs)) c (k' @ t)"
    by (simp add: Rep1_def)
  moreover from k kk obtain ys where "rmatch (Star (Sym cs)) c (k' @ t) = rmatch (Star (Sym cs)) c t @ ys"
    using star_sym_append[of k' cs c t] by auto
  moreover obtain xs where xs: "rmatch (Star (Sym cs)) c t = xs @ [(c, t)]"
    using star_last by blast
  ultimately have "rmatch (Rep1 (Sym cs)) c (k @ t) = xs @ (c, t) # ys" by simp
  moreover have "\<forall>(c', s') \<in> set xs. \<exists>u. u \<noteq> [] \<and> t = u @ s' \<and> (\<forall>x \<in> set u. cset_has cs x)"
    using star_sym_longer[OF xs] by blast
  ultimately show ?thesis by blast
qed

lemma key_first:
  assumes k: "plain_key k" and t: "quiet t'"
    and R: "first R ((1, k) # c) (CHR ''='' # t') = Some x"
    and Rfail: "\<And>c' s'. s' = [] \<or> hd s' \<noteq> CHR ''='' \<Longrightarrow> rmatch R c' s' = []"
  shows "first (Cat (Group 1 (Rep1 (Sym NonSp))) R) c (k @ CHR ''='' # t') = Some x"
proof -
  let ?t = "CHR ''='' # t'"
  let ?s = "k @ ?t"
  let ?g = "\<lambda>(c', s'). ((1::nat, take (length ?s - length s') ?s) # c', s')"
  from k have k': "k \<noteq> []" "\<forall>x \<in> set k. cset_has NonSp x" by (auto simp: plain_key_def)
  from rep1_sym_decompose[OF k', of c ?t] obtain xs ys where
    d: "rmatch (Rep1 (Sym NonSp)) c ?s = xs @ (c, ?t) # ys"
    and l: "\<forall>(c', s') \<in> set xs. \<exists>u. u \<noteq> [] \<and> ?t = u @ s' \<and> (\<forall>x \<in> set u. cset_has NonSp x)"
    by blast
  have g: "rmatch (Group 1 (Rep1 (Sym NonSp))) c ?s = map ?g xs @ ((1, k) # c, ?t) # map ?g ys"
    by (simp add: d)
  have "rmatch R c'' s' = []" if "(c'', s') \<in> set (map ?g xs)" for c'' s'
  proof -
    from that obtain c' where "(c', s') \<in> set xs" by auto
    with l obtain u where u: "u \<noteq> []" "?t = u @ s'" "\<forall>x \<in> set u. \<not> white_space x" by fastforce
    then obtain u' where u': "u = CHR ''='' # u'" "t' = u' @ s'" by (cases u) auto
    have "s' = [] \<or> hd s' \<noteq> CHR ''=''"
    proof (rule ccontr)
      assume "\<not> (s' = [] \<or> hd s' \<noteq> CHR ''='')"
      then obtain r where "s' = CHR ''='' # r" by (cases s') auto
      with u' have "t' = u' @ CHR ''='' # r" by simp
      moreover have "CHR ''='' \<in> set (takeWhile (\<lambda>x. \<not> white_space x) (u' @ CHR ''='' # r))"
        by (rule takeWhile_reaches) (use u(3) u'(1) in \<open>auto simp: white_space_def\<close>)
      ultimately show False using t by (simp add: quiet_def)
    qed
    then show ?thesis by (rule Rfail)
  qed
  then have "\<forall>(c', s') \<in> set (map ?g xs). rmatch R c' s' = []" by blast
  from first_Cat_later[OF g this R] show ?thesis .
qed

lemma quiet_after_quote:
  assumes "plain_value v" "quiet tail"
  shows "quiet (CHR 0x22 # v @ CHR 0x22 # tail)"
proof -
  have "set (takeWhile (\<lambda>x. \<not> white_space x) ((CHR 0x22 # v) @ CHR 0x22 # tail)) \<subseteq>
        set (CHR 0x22 # v) \<union> set (takeWhile (\<lambda>x. \<not> white_space x) (CHR 0x22 # tail))"
    by (rule set_takeWhile_append)
  also have "\<dots> \<subseteq> set (CHR 0x22 # v) \<union> ({CHR 0x22} \<union> set (takeWhile (\<lambda>x. \<not> white_space x) tail))"
    by auto
  finally show ?thesis using assms by (auto simp: quiet_def plain_value_def)
qed

lemma attribute_first:
  assumes k: "plain_key k" and v: "plain_value v" and t: "quiet tail"
  shows "first attribute_regexp [] (k @ CHR ''='' # CHR 0x22 # v @ CHR 0x22 # tail) =
           Some ([(2, v), (1, k)], tail)"
proof -
  let ?c = "[(1::nat, k)]"
  let ?R = "Cat (Sym (Lit CHR ''=''))
             (Cat (Opt quote) (Cat (Group 2 (Cat (Rep1 value_char) (Sym AnyChar))) (Opt quote)))"
  have vf: "first (Group 2 (Cat (Rep1 value_char) (Sym AnyChar))) ?c (v @ CHR 0x22 # tail) =
      Some ((2, v) # ?c, CHR 0x22 # tail)"
    using first_Group[OF value_first[OF v t, of ?c], of 2] by simp
  have q2: "first (Opt quote) ((2, v) # ?c) (CHR 0x22 # tail) = Some ((2, v) # ?c, tail)"
    by (rule first_Opt) (simp_all add: first_def quote_def)
  have q1: "first (Opt quote) ?c (CHR 0x22 # v @ CHR 0x22 # tail) = Some (?c, v @ CHR 0x22 # tail)"
    by (rule first_Opt) (simp_all add: first_def quote_def)
  have e: "first (Sym (Lit CHR ''='')) ?c (CHR ''='' # CHR 0x22 # v @ CHR 0x22 # tail) =
      Some (?c, CHR 0x22 # v @ CHR 0x22 # tail)"
    by (simp add: first_Sym)
  have R: "first ?R ?c (CHR ''='' # CHR 0x22 # v @ CHR 0x22 # tail) = Some ((2, v) # ?c, tail)"
    by (rule first_Cat[OF e], rule first_Cat[OF q1], rule first_Cat[OF vf], rule q2)
  have Rfail: "rmatch ?R c' s' = []" if "s' = [] \<or> hd s' \<noteq> CHR ''=''" for c' s'
    using that by (cases s') auto
  from key_first[OF k quiet_after_quote[OF v t], of ?R "[]", OF _ Rfail] R
  show ?thesis by (simp add: attribute_regexp_def)
qed

lemma attribute_none:
  assumes "quiet s"
  shows "rmatch attribute_regexp c s = []"
proof (rule ccontr)
  assume "rmatch attribute_regexp c s \<noteq> []"
  then obtain c' s' where "(c', s') \<in> set (rmatch attribute_regexp c s)"
    by (cases "rmatch attribute_regexp c s") auto
  then obtain c1 s1 c2 s2 where
    g: "(c1, s1) \<in> set (rmatch (Group 1 (Rep1 (Sym NonSp))) c s)"
    and e: "(c2, s2) \<in> set (rmatch (Sym (Lit CHR ''='')) c1 s1)"
    unfolding attribute_regexp_def in_Cat by blast
  from g obtain c0 where "(c0, s1) \<in> set (rmatch (Rep1 (Sym NonSp)) c s)" unfolding in_Group by blast
  from rep1_sym_chars[OF this] obtain k where k: "s = k @ s1" "\<forall>x \<in> set k. \<not> white_space x" by auto
  from e have "s1 = CHR ''='' # s2" unfolding in_Sym by auto
  with k have "s = k @ CHR ''='' # s2" by simp
  moreover have "CHR ''='' \<in> set (takeWhile (\<lambda>x. \<not> white_space x) (k @ CHR ''='' # s2))"
    by (rule takeWhile_reaches) (use k(2) in \<open>auto simp: white_space_def\<close>)
  ultimately show False using assms by (simp add: quiet_def)
qed

lemma quiet_no_eq: "CHR ''='' \<notin> set s \<Longrightarrow> quiet s"
  by (auto simp: quiet_def dest: set_takeWhileD)

lemma quiet_prefix:
  assumes "CHR ''='' \<notin> set p" "p \<noteq> []" "white_space (last p)"
  shows "quiet (p @ s)"
proof -
  from assms(2,3) have "last p \<in> set p" "\<not> (\<not> white_space (last p))" by auto
  then have "takeWhile (\<lambda>x. \<not> white_space x) (p @ s) = takeWhile (\<lambda>x. \<not> white_space x) p"
    by (rule takeWhile_append1)
  with assms(1) show ?thesis by (auto simp: quiet_def dest: set_takeWhileD)
qed

lemma exec_attribute_none: "CHR ''='' \<notin> set s \<Longrightarrow> exec attribute_regexp s = None"
proof (induction s)
  case Nil
  then show ?case by (simp add: exec_empty attribute_none quiet_no_eq)
next
  case (Cons x xs)
  then have "rmatch attribute_regexp [] (x # xs) = []" by (intro attribute_none quiet_no_eq)
  from exec_Nil_rmatch[OF this] Cons show ?case by simp
qed

lemma exec_attribute_skip:
  assumes "CHR ''='' \<notin> set p" "p = [] \<or> white_space (last p)"
    and "first attribute_regexp [] s = Some (c, rest)"
  shows "exec attribute_regexp (p @ s) = Some (p, take (length s - length rest) s, c, rest)"
  using assms(1,2)
proof (induction p)
  case Nil
  from assms(3) obtain more where "rmatch attribute_regexp [] s = (c, rest) # more"
    by (auto simp: first_def split: list.splits)
  from exec_Cons_rmatch[OF this] show ?case by simp
next
  case (Cons x p)
  from Cons.prems have "quiet ((x # p) @ s)" by (intro quiet_prefix) auto
  then have "rmatch attribute_regexp [] (x # p @ s) = []" by (simp add: attribute_none)
  from exec_Nil_rmatch[OF this]
  have e: "exec attribute_regexp (x # p @ s) =
      (case exec attribute_regexp (p @ s) of None \<Rightarrow> None
       | Some (skip, m, c, s') \<Rightarrow> Some (x # skip, m, c, s'))" .
  from Cons.prems have "CHR ''='' \<notin> set p" "p = [] \<or> white_space (last p)" by (auto split: if_splits)
  from Cons.IH[OF this] e show ?case by simp
qed

lemma quiet_rendered:
  assumes "well_written items" and "CHR ''='' \<notin> set tail"
  shows "quiet (concat (map render items) @ tail)"
proof (cases items)
  case Nil
  with assms(2) show ?thesis by (simp add: quiet_no_eq)
next
  case (Cons item rest)
  with assms(1) obtain x sep where "fst item = x # sep" "white_space x"
    by (cases "fst item") (auto simp: well_written_def spaced_def)
  with Cons show ?thesis by (simp add: render_def quiet_def)
qed

lemma equals_not_space: "white_space x \<Longrightarrow> x \<noteq> CHR ''=''"
  by (auto simp: white_space_def)

lemma getAttributes_rendered:
  assumes "well_written items" and "CHR ''='' \<notin> set tail" and "CHR ''='' \<notin> set p"
  shows "getAttributes (p @ concat (map render items) @ tail) = Some (map snd items)"
  using assms(1,3)
proof (induction items arbitrary: p)
  case Nil
  with assms(2) have "exec attribute_regexp (p @ tail) = None" by (intro exec_attribute_none) simp
  then show ?case by (subst getAttributes.simps) simp
next
  case (Cons item items)
  obtain sep a where item: "item = (sep, a)" by (cases item)
  let ?rest = "concat (map render items) @ tail"
  let ?s = "key a @ CHR ''='' # CHR 0x22 # val a @ CHR 0x22 # ?rest"
  from Cons.prems item have a: "plain_key (key a)" "plain_value (val a)"
    and sep: "sep \<noteq> []" "\<forall>x \<in> set sep. white_space x" and w: "well_written items"
    by (simp_all add: well_written_def plain_attribute_def spaced_def)
  have f: "first attribute_regexp [] ?s = Some ([(2, val a), (1, key a)], ?rest)"
    by (rule attribute_first[OF a quiet_rendered[OF w assms(2)]])
  from sep Cons.prems(2) have "CHR ''='' \<notin> set (p @ sep)" by (auto dest: equals_not_space)
  moreover from sep have "p @ sep = [] \<or> white_space (last (p @ sep))" by simp
  ultimately have "exec attribute_regexp ((p @ sep) @ ?s) =
      Some (p @ sep, take (length ?s - length ?rest) ?s, [(2, val a), (1, key a)], ?rest)"
    by (rule exec_attribute_skip[OF _ _ f])
  then have e: "exec attribute_regexp (p @ concat (map render (item # items)) @ tail) =
      Some (p @ sep, take (length ?s - length ?rest) ?s, [(2, val a), (1, key a)], ?rest)"
    by (simp add: render_def item)
  from Cons.IH[OF w, of "[]"] have ih: "getAttributes ?rest = Some (map snd items)" by simp
  have l: "length ?rest < length (p @ concat (map render (item # items)) @ tail)"
    by (simp add: render_def)
  show ?case
    by (subst getAttributes.simps)
       (simp only: e option.case prod.case l if_True ih, simp add: capture_def item)
qed

lemma getAttributes_forms:
  assumes "well_written items"
    and "CHR ''='' \<notin> set name" and "CHR ''='' \<notin> set body"
  shows "getAttributes (closed_form name items body) = Some (map snd items)"
    and "getAttributes (self_closing_form name items) = Some (map snd items)"
proof -
  from assms(2,3) have t: "CHR ''='' \<notin> set (''>'' @ body @ ''</'' @ name @ ''>'')" by simp
  from assms(2) have p: "CHR ''='' \<notin> set (''<'' @ name)" by simp
  from getAttributes_rendered[OF assms(1) t p]
  show "getAttributes (closed_form name items body) = Some (map snd items)"
    by (simp add: closed_form_def)
  have t': "CHR ''='' \<notin> set ''/>''" by simp
  from getAttributes_rendered[OF assms(1) t' p]
  show "getAttributes (self_closing_form name items) = Some (map snd items)"
    by (simp add: self_closing_form_def)
qed

section \<open>Tags as they are written, in a document\<close>

subsection \<open>Line breaks\<close>

lemma collapse_Cons: "CHR 0x0D \<noteq> x \<Longrightarrow> CHR 0x0A \<noteq> x \<Longrightarrow> collapse (x # s) = x # collapse s"
  by (cases s) auto

lemma collapse_unbroken_prefix:
  "CHR 0x0D \<notin> set s \<Longrightarrow> CHR 0x0A \<notin> set s \<Longrightarrow> collapse (s @ t) = s @ collapse t"
  by (induction s) (simp_all add: collapse_Cons)

lemma collapse_append:
  "t = [] \<or> hd t \<noteq> CHR 0x0A \<Longrightarrow> collapse (s @ t) = collapse s @ collapse t"
proof (induction s rule: collapse.induct)
  case 1
  then show ?case by simp
next
  case (2 c)
  then show ?case by (cases t) auto
next
  case (3 c d t')
  then show ?case by auto
qed

lemma collapse_chars: "x \<in> set (collapse s) \<Longrightarrow> x \<in> set s \<or> x = CHR '' ''"
  by (induction s rule: collapse.induct) (auto split: if_splits)

lemma collapse_nonempty: "s \<noteq> [] \<Longrightarrow> collapse s \<noteq> []"
  by (induction s rule: collapse.induct) auto

lemma space_white: "white_space (CHR '' '')"
  by (simp add: white_space_def)

lemma collapse_spaced: "spaced sep \<Longrightarrow> spaced (collapse sep)"
  using collapse_chars[of _ sep] space_white by (auto simp: spaced_def collapse_nonempty)

lemma well_written_on_one_line: "well_written items \<Longrightarrow> well_written (on_one_line items)"
  by (auto simp: well_written_def on_one_line_def collapse_spaced)

lemma breaks_are_white: "line_terminator x \<Longrightarrow> white_space x"
  by (auto simp: line_terminator_def white_space_def)

lemma key_value_unbroken:
  assumes "plain_attribute a"
  shows "CHR 0x0D \<notin> set (key a @ CHR ''='' # CHR 0x22 # val a @ [CHR 0x22])"
    and "CHR 0x0A \<notin> set (key a @ CHR ''='' # CHR 0x22 # val a @ [CHR 0x22])"
    and "key a \<noteq> []" and "hd (key a) \<noteq> CHR 0x0A"
proof -
  from assms have k: "key a \<noteq> []" "\<forall>x \<in> set (key a). \<not> white_space x"
    and v: "\<forall>x \<in> set (val a). \<not> line_terminator x"
    by (auto simp: plain_attribute_def plain_key_def plain_value_def)
  from k have "\<forall>x \<in> set (key a). \<not> line_terminator x" using breaks_are_white by blast
  with v show "CHR 0x0D \<notin> set (key a @ CHR ''='' # CHR 0x22 # val a @ [CHR 0x22])"
    and "CHR 0x0A \<notin> set (key a @ CHR ''='' # CHR 0x22 # val a @ [CHR 0x22])"
    by (auto simp: line_terminator_def)
  from k show "key a \<noteq> []" by simp
  from k have "hd (key a) \<in> set (key a)" by simp
  with k(2) show "hd (key a) \<noteq> CHR 0x0A" by (auto simp: white_space_def)
qed

lemma collapse_rendered:
  assumes "well_written items"
  shows "collapse (concat (map render items) @ tail) =
           concat (map render (on_one_line items)) @ collapse tail"
  using assms
proof (induction items)
  case Nil
  then show ?case by (simp add: on_one_line_def)
next
  case (Cons item items)
  obtain sep a where item: "item = (sep, a)" by (cases item)
  let ?kv = "key a @ CHR ''='' # CHR 0x22 # val a @ [CHR 0x22]"
  let ?rest = "concat (map render items) @ tail"
  from Cons.prems item have a: "plain_attribute a" and w: "well_written items"
    by (simp_all add: well_written_def)
  from key_value_unbroken[OF a] have h: "?kv @ ?rest = [] \<or> hd (?kv @ ?rest) \<noteq> CHR 0x0A"
    by (cases "key a") auto
  have "collapse (sep @ ?kv @ ?rest) = collapse sep @ collapse (?kv @ ?rest)"
    by (rule collapse_append[OF h])
  also have "collapse (?kv @ ?rest) = ?kv @ collapse ?rest"
    by (rule collapse_unbroken_prefix[OF key_value_unbroken(1,2)[OF a]])
  finally show ?case using Cons.IH[OF w] by (simp add: render_def item on_one_line_def)
qed

subsection \<open>Breaks before and after the tag name\<close>

lemma break_before_hit: "w \<noteq> [] \<Longrightarrow> break_before w (w @ s) = CHR 0x0A # w @ break_before w s"
  by (cases w) (simp_all add: break_before.simps(2))

lemma break_before_skip:
  "x \<notin> set a \<Longrightarrow> break_before (x # w) (a @ b) = a @ break_before (x # w) b"
  by (induction a) (auto simp: break_before.simps(2))

lemma break_before_absent: "x \<notin> set s \<Longrightarrow> break_before (x # w) s = s"
  using break_before_skip[of x s w "[]"] by simp



lemma break_after_miss: "\<not> prefix w (x # s) \<Longrightarrow> break_after w (x # s) = x # break_after w s"
  by (simp add: break_after.simps(2))

lemma break_after_skip:
  assumes "g \<notin> set a" and "a \<noteq> [] \<longrightarrow> last a \<notin> set u"
  shows "break_after (u @ [g]) (a @ b) = a @ break_after (u @ [g]) b"
  using assms
proof (induction a)
  case Nil
  then show ?case by simp
next
  case (Cons x a)
  have n: "\<not> prefix (u @ [g]) (x # a @ b)"
  proof
    assume "prefix (u @ [g]) (x # a @ b)"
    then have "prefix (u @ [g]) ((x # a) @ b)" by simp
    then consider "prefix (u @ [g]) (x # a)" | us where "u @ [g] = (x # a) @ us"
      unfolding prefix_append by blast
    then show False
    proof cases
      case 1
      then have "set (u @ [g]) \<subseteq> set (x # a)" by (rule set_mono_prefix)
      with Cons.prems(1) show ?thesis by auto
    next
      case 2
      show ?thesis
      proof (cases us rule: rev_cases)
        case Nil
        with 2 have "g \<in> set (x # a)" by (metis append_Nil2 in_set_conv_decomp)
        with Cons.prems(1) show ?thesis by simp
      next
        case (snoc us' z)
        with 2 have "u = (x # a) @ us'" by simp
        then have "last (x # a) \<in> set u" by (metis in_set_conv_decomp append_butlast_last_id list.distinct(1) append.assoc append_Cons)
        with Cons.prems(2) show ?thesis by simp
      qed
    qed
  qed
  from Cons.prems have "g \<notin> set a" "a \<noteq> [] \<longrightarrow> last a \<notin> set u" by auto
  from Cons.IH[OF this] break_after_miss[OF n] show ?case by simp
qed

subsection \<open>The written attributes as text\<close>

lemma white_not_bracket: "white_space x \<Longrightarrow> x \<noteq> CHR ''<'' \<and> x \<noteq> CHR ''>''"
  by (auto simp: white_space_def)

lemma render_brackets:
  assumes "spaced (fst item)" and "plain_attribute (snd item)"
  shows "CHR ''<'' \<notin> set (render item) \<and> CHR ''>'' \<notin> set (render item)"
proof -
  from assms(1) have s: "CHR ''<'' \<notin> set (fst item)" "CHR ''>'' \<notin> set (fst item)"
    using white_not_bracket by (auto simp: spaced_def)
  from assms(2) have k: "CHR ''<'' \<notin> set (key (snd item))" "CHR ''>'' \<notin> set (key (snd item))"
    by (auto simp: plain_attribute_def plain_key_def)
  from assms(2) have v: "CHR ''<'' \<notin> set (val (snd item))" "CHR ''>'' \<notin> set (val (snd item))"
    by (auto simp: plain_attribute_def plain_value_def)
  from s k v show ?thesis by (simp add: render_def)
qed

lemma rendered_brackets:
  assumes "well_written items"
  shows "CHR ''<'' \<notin> set (concat (map render items))"
    and "CHR ''>'' \<notin> set (concat (map render items))"
  using assms render_brackets by (fastforce simp: well_written_def)+

lemma render_unbroken:
  assumes "plain_attribute a"
  shows "\<forall>x \<in> set (render (collapse sep, a)). \<not> line_terminator x"
proof -
  from assms have "\<forall>x \<in> set (key a). \<not> white_space x" by (simp add: plain_attribute_def plain_key_def)
  then have k: "\<forall>x \<in> set (key a). \<not> line_terminator x" using breaks_are_white by blast
  from assms have v: "\<forall>x \<in> set (val a). \<not> line_terminator x"
    by (simp add: plain_attribute_def plain_value_def)
  have s: "\<forall>x \<in> set (collapse sep). \<not> line_terminator x"
    using collapse_no_breaks[of sep] by (auto simp: line_terminator_def)
  have q: "\<not> line_terminator (CHR ''='')" "\<not> line_terminator (CHR 0x22)"
    by (simp_all add: line_terminator_def)
  from k v s q show ?thesis by (simp add: render_def ball_Un)
qed

lemma rendered_unbroken:
  assumes "well_written items"
  shows "\<forall>x \<in> set (concat (map render (on_one_line items))). \<not> line_terminator x"
proof -
  have "\<forall>x \<in> set (render (collapse (fst item), snd item)). \<not> line_terminator x"
    if "item \<in> set items" for item
    using that assms by (intro render_unbroken) (simp add: well_written_def)
  then show ?thesis by (simp add: on_one_line_def)
qed



lemma on_one_line_attributes: "map snd (on_one_line items) = map snd items"
  by (simp add: on_one_line_def comp_def)

subsection \<open>What the formatter makes of a written tag\<close>

lemma plain_name_facts:
  assumes "plain_name n"
  shows "n \<noteq> []" and "set n \<inter> set syntax_chars = {}"
    and "CHR ''<'' \<notin> set n" and "CHR ''>'' \<notin> set n" and "CHR ''/'' \<notin> set n"
    and "CHR ''='' \<notin> set n" and "CHR 0x22 \<notin> set n"
    and "CHR 0x0D \<notin> set n" and "CHR 0x0A \<notin> set n"
  using assms by (auto simp: plain_name_def line_terminator_def)

lemma plain_text_collapse: "plain_text t \<Longrightarrow> plain_text (collapse t)"
  using collapse_chars[of _ t] by (auto simp: plain_text_def)

lemma collapse_self_closing:
  assumes "plain_name n" and "well_written items"
  shows "collapse (pre @ self_closing_form n items @ post) =
           collapse pre @ self_closing_form n (on_one_line items) @ collapse post"
proof -
  note n = plain_name_facts[OF assms(1)]
  have "collapse (pre @ self_closing_form n items @ post) =
      collapse pre @ collapse (self_closing_form n items @ post)"
    by (rule collapse_append) (simp add: self_closing_form_def)
  moreover have "collapse ((''<'' @ n) @ concat (map render items) @ ''/>'' @ post) =
      (''<'' @ n) @ collapse (concat (map render items) @ ''/>'' @ post)"
    by (rule collapse_unbroken_prefix) (use n in auto)
  moreover have "collapse (''/>'' @ post) = ''/>'' @ collapse post"
    by (rule collapse_unbroken_prefix) simp_all
  ultimately show ?thesis by (simp add: self_closing_form_def collapse_rendered[OF assms(2)])
qed



lemma break_after_absent: "g \<notin> set s \<Longrightarrow> break_after (u @ [g]) s = s"
proof (induction s)
  case Nil
  then show ?case by simp
next
  case (Cons x s)
  have "\<not> prefix (u @ [g]) (x # s)"
  proof
    assume "prefix (u @ [g]) (x # s)"
    then have "set (u @ [g]) \<subseteq> set (x # s)" by (rule set_mono_prefix)
    with Cons.prems show False by auto
  qed
  from break_after_miss[OF this] Cons show ?case by simp
qed

lemma break_self_closing:
  assumes n: "plain_name n"
    and R: "CHR ''<'' \<notin> set R" "CHR ''>'' \<notin> set R"
    and pre: "plain_text pre" and post: "plain_text post"
  shows "break_after (n @ ''>'') (break_before (''<'' @ n) (pre @ (''<'' @ n @ R @ ''/>'') @ post)) =
           pre @ CHR 0x0A # (''<'' @ n @ R @ ''/>'') @ post"
proof -
  note f = plain_name_facts[OF n]
  let ?w = "CHR ''<'' # n"
  let ?v = "n @ [CHR ''>'']"
  have 1: "break_before ?w (pre @ ?w @ R @ ''/>'' @ post) = pre @ break_before ?w (?w @ R @ ''/>'' @ post)"
    by (rule break_before_skip) (use pre in \<open>simp add: plain_text_def\<close>)
  have 2: "break_before ?w (?w @ R @ ''/>'' @ post) = CHR 0x0A # ?w @ break_before ?w (R @ ''/>'' @ post)"
    by (rule break_before_hit) simp
  have 3: "break_before ?w (R @ ''/>'' @ post) = R @ ''/>'' @ post"
    by (rule break_before_absent) (use R post in \<open>simp add: plain_text_def\<close>)
  have b: "break_before (''<'' @ n) (pre @ (''<'' @ n @ R @ ''/>'') @ post) =
      (pre @ CHR 0x0A # ''<'' @ n @ R @ ''/'') @ CHR ''>'' # post"
    using 1 2 3 by simp
  have 4: "break_after ?v ((pre @ CHR 0x0A # ''<'' @ n @ R @ ''/'') @ CHR ''>'' # post) =
      (pre @ CHR 0x0A # ''<'' @ n @ R @ ''/'') @ break_after ?v (CHR ''>'' # post)"
    by (rule break_after_skip) (use f R pre in \<open>auto simp: plain_text_def\<close>)
  have "\<not> prefix ?v (CHR ''>'' # post)"
    using f(1,4) by (cases n) auto
  then have 5: "break_after ?v (CHR ''>'' # post) = CHR ''>'' # break_after ?v post"
    by (simp add: break_after_miss)
  have 6: "break_after ?v post = post"
    by (rule break_after_absent) (use post in \<open>simp add: plain_text_def\<close>)
  show ?thesis unfolding b using 4 5 6 by simp
qed


lemma format_self_closing:
  assumes "plain_name (tagName opts)" and "well_written items"
    and "plain_text pre" and "plain_text post"
  shows "format opts (pre @ self_closing_form (tagName opts) items @ post) =
           Some (collapse pre @ CHR 0x0A # self_closing_form (tagName opts) (on_one_line items) @
                 collapse post)"
proof -
  note n = plain_name_facts[OF assms(1)]
  note w = well_written_on_one_line[OF assms(2)]
  show ?thesis
    unfolding format_reading[OF n(2)] collapse_self_closing[OF assms(1,2)]
    using break_self_closing[OF assms(1) rendered_brackets[OF w] plain_text_collapse[OF assms(3)]
        plain_text_collapse[OF assms(4)]]
    by (simp add: self_closing_form_def)
qed


subsection \<open>Searching a text for a pattern\<close>

lemma exec_none:
  assumes "\<And>t. suffix t s \<Longrightarrow> rmatch r [] t = []"
  shows "exec r s = None"
  using assms
proof (induction s)
  case Nil
  then show ?case by (simp add: exec_empty)
next
  case (Cons x xs)
  have "rmatch r [] (x # xs) = []" by (rule Cons.prems) simp
  from exec_Nil_rmatch[OF this] Cons.IH Cons.prems show ?case by (simp add: suffix_Cons)
qed

lemma match_all_none: "exec r s = None \<Longrightarrow> match_all r s = []"
  by (subst match_all.simps) simp

lemma match_all_one:
  "exec r s = Some (skip, m, c, rest) \<Longrightarrow> m \<noteq> [] \<Longrightarrow> exec r rest = None \<Longrightarrow> match_all r s = [m]"
  by (subst match_all.simps) (simp add: match_all_none)

lemma exec_after_one:
  assumes "rmatch r [] (x # s) = []" and "first r [] s = Some (c, rest)"
  shows "exec r (x # s) = Some ([x], take (length s - length rest) s, c, rest)"
proof -
  from assms(2) obtain more where "rmatch r [] s = (c, rest) # more"
    by (auto simp: first_def split: list.splits)
  from exec_Cons_rmatch[OF this] exec_Nil_rmatch[OF assms(1)] show ?thesis by simp
qed

text \<open>
  Both patterns of the scanner are an opening text, a group and a closing text: a match
  holds the closing text.
\<close>

lemma tag_pattern_parts:
  assumes "(c', s') \<in> set (rmatch (Cat (Str a) (Cat (Group n X) (Str b))) c t)"
  shows "\<exists>u. t = a @ u @ b @ s'"
proof -
  from assms obtain c1 s1 c2 s2 where 1: "(c1, s1) \<in> set (rmatch (Str a) c t)"
    and 2: "(c2, s2) \<in> set (rmatch (Group n X) c1 s1)"
    and 3: "(c', s') \<in> set (rmatch (Str b) c2 s2)"
    unfolding in_Cat by blast
  from 1 have "t = a @ s1" unfolding in_Str by simp
  moreover from rmatch_suffix[OF 2] obtain u where "s1 = u @ s2" by (auto simp: suffix_def)
  moreover from 3 have "s2 = b @ s'" unfolding in_Str by simp
  ultimately show ?thesis by simp
qed

lemma tag_pattern_none:
  assumes "\<not> sublist b s"
  shows "exec (Cat (Str a) (Cat (Group n X) (Str b))) s = None"
proof (rule exec_none)
  fix t assume t: "suffix t s"
  show "rmatch (Cat (Str a) (Cat (Group n X) (Str b))) [] t = []"
  proof (rule ccontr)
    assume "rmatch (Cat (Str a) (Cat (Group n X) (Str b))) [] t \<noteq> []"
    from hd_in_set[OF this]
    obtain c' s' where "(c', s') \<in> set (rmatch (Cat (Str a) (Cat (Group n X) (Str b))) [] t)"
      by (metis surj_pair)
    from tag_pattern_parts[OF this] obtain u where "t = a @ u @ b @ s'" by blast
    moreover from t obtain p where "s = p @ t" by (auto simp: suffix_def)
    ultimately have "s = (p @ a @ u) @ b @ s'" by simp
    then have "sublist b s" unfolding sublist_def by blast
    with assms show False by simp
  qed
qed

lemma tag_pattern_elsewhere: "\<not> prefix a t \<Longrightarrow> rmatch (Cat (Str a) R) c t = []"
  by simp

lemma pair_in_append:
  assumes "sublist [x, y] (a @ b)"
  shows "sublist [x, y] a \<or> sublist [x, y] b \<or> (a \<noteq> [] \<and> b \<noteq> [] \<and> last a = x \<and> hd b = y)"
proof -
  from assms have "sublist [x, y] a \<or> sublist [x, y] b \<or>
      (\<exists>xs1 xs2. [x, y] = xs1 @ xs2 \<and> suffix xs1 a \<and> prefix xs2 b)"
    by (simp only: sublist_append)
  then show ?thesis
  proof (elim disjE exE conjE)
    fix xs1 xs2 assume e: "[x, y] = xs1 @ xs2" and s: "suffix xs1 a" and p: "prefix xs2 b"
    show ?thesis
    proof (cases xs1)
      case Nil
      with e p have "prefix [x, y] b" by simp
      then show ?thesis by (simp add: prefix_imp_sublist)
    next
      case (Cons u us)
      note c = this
      show ?thesis
      proof (cases us)
        case Nil
        with c e have xs: "xs1 = [x]" "xs2 = [y]" by simp_all
        from s xs obtain a' where "a = a' @ [x]" by (auto simp: suffix_def)
        moreover from p xs obtain b' where "b = y # b'" by (auto simp: prefix_def)
        ultimately show ?thesis by simp
      next
        case (Cons v vs)
        with c e have "xs1 = [x, y]" by simp
        with s show ?thesis by (simp add: suffix_imp_sublist)
      qed
    qed
  qed simp_all
qed

lemma pair_absent: "y \<notin> set s \<Longrightarrow> \<not> sublist [x, y] s"
  using set_mono_sublist[of "[x, y]" s] by auto

lemma pair_absent_first: "x \<notin> set s \<Longrightarrow> \<not> sublist [x, y] s"
  using set_mono_sublist[of "[x, y]" s] by auto

lemma exec_skip:
  assumes "\<And>k1 k2. skip = k1 @ k2 \<Longrightarrow> k2 \<noteq> [] \<Longrightarrow> rmatch r [] (k2 @ m @ rest) = []"
    and "first r [] (m @ rest) = Some (c, rest)"
  shows "exec r (skip @ m @ rest) = Some (skip, m, c, rest)"
  using assms(1)
proof (induction skip)
  case Nil
  from assms(2) obtain more where "rmatch r [] (m @ rest) = (c, rest) # more"
    by (auto simp: first_def split: list.splits)
  from exec_Cons_rmatch[OF this] show ?case by simp
next
  case (Cons x skip)
  have "rmatch r [] ((x # skip) @ m @ rest) = []" by (rule Cons.prems[of "[]"]) simp_all
  then have e: "exec r (x # skip @ m @ rest) =
      (case exec r (skip @ m @ rest) of None \<Rightarrow> None
       | Some (skip', m', c', s') \<Rightarrow> Some (x # skip', m', c', s'))"
    using exec_Nil_rmatch[of r x "skip @ m @ rest"] by simp
  have "exec r (skip @ m @ rest) = Some (skip, m, c, rest)"
  proof (rule Cons.IH)
    fix k1 k2 assume "skip = k1 @ k2" "k2 \<noteq> []"
    then show "rmatch r [] (k2 @ m @ rest) = []" using Cons.prems[of "x # k1" k2] by simp
  qed
  with e show ?case by simp
qed

lemma tag_pattern_skip:
  assumes "x \<notin> set skip" and "first (Cat (Str (x # a)) R) [] (m @ rest) = Some (c, rest)"
  shows "exec (Cat (Str (x # a)) R) (skip @ m @ rest) = Some (skip, m, c, rest)"
proof (rule exec_skip[OF _ assms(2)])
  fix k1 k2 assume "skip = k1 @ k2" "k2 \<noteq> []"
  with assms(1) have "\<not> prefix (x # a) (k2 @ m @ rest)" by (cases k2) auto
  then show "rmatch (Cat (Str (x # a)) R) [] (k2 @ m @ rest) = []" by (rule tag_pattern_elsewhere)
qed

lemma tag_pattern_absent:
  assumes "x \<notin> set s"
  shows "exec (Cat (Str (x # a)) R) s = None"
proof (rule exec_none)
  fix t assume "suffix t s"
  then have "set t \<subseteq> set s" by (rule set_mono_suffix)
  with assms have "\<not> prefix (x # a) t" by (cases t) auto
  then show "rmatch (Cat (Str (x # a)) R) [] t = []" by (rule tag_pattern_elsewhere)
qed

text \<open>
  The line of a self-closing tag holds no closing tag, that of a closed tag no \<^verbatim>\<open>/>\<close>,
  when the text around the tag has no angle bracket.
\<close>

lemma no_closing_in_self_closing:
  assumes n: "plain_name n" and R: "CHR ''>'' \<notin> set R"
    and pre: "plain_text pre" and post: "plain_text post"
  shows "\<not> sublist (''/'' @ n @ ''>'') (pre @ CHR 0x0A # (''<'' @ n @ R @ ''/>'') @ post)"
proof
  note f = plain_name_facts[OF n]
  let ?a = "pre @ CHR 0x0A # ''<'' @ n @ R @ ''/''"
  assume s: "sublist (''/'' @ n @ ''>'') (pre @ CHR 0x0A # (''<'' @ n @ R @ ''/>'') @ post)"
  from f(1) obtain m l where m: "n = m @ [l]" by (cases n rule: rev_cases) auto
  with f(4) have l: "l \<noteq> CHR ''>''" by auto
  have "sublist [l, CHR ''>''] (''/'' @ n @ ''>'')"
    unfolding m sublist_def by (intro exI[of _ "''/'' @ m"] exI[of _ "[]"]) simp
  from this s have "sublist [l, CHR ''>''] (pre @ CHR 0x0A # (''<'' @ n @ R @ ''/>'') @ post)"
    by (rule sublist_order.order.trans)
  then have "sublist [l, CHR ''>''] (?a @ (''>'' @ post))" by simp
  from pair_in_append[OF this] show False
  proof (elim disjE)
    assume a: "sublist [l, CHR ''>''] ?a"
    have "CHR ''>'' \<notin> set ?a" using f R pre by (simp add: plain_text_def)
    from pair_absent[OF this, of l] a show False by simp
  next
    assume "sublist [l, CHR ''>''] (''>'' @ post)"
    from pair_in_append[OF this] show False
    proof (elim disjE)
      assume "sublist [l, CHR ''>''] ''>''"
      then show False by (auto simp: sublist_Cons_right)
    next
      assume a: "sublist [l, CHR ''>''] post"
      have "CHR ''>'' \<notin> set post" using post by (simp add: plain_text_def)
      from pair_absent[OF this, of l] a show False by simp
    next
      assume "''>'' \<noteq> [] \<and> post \<noteq> [] \<and> last ''>'' = l \<and> hd post = CHR ''>''"
      with l show False by simp
    qed
  next
    assume "?a \<noteq> [] \<and> ''>'' @ post \<noteq> [] \<and> last ?a = l \<and> hd (''>'' @ post) = CHR ''>''"
    then have "l = CHR ''/''" by simp
    with m f(5) show False by simp
  qed
qed


subsection \<open>The greedy and the lazy group\<close>

lemma lazy_unfold_one:
  "cset_has cs x \<Longrightarrow>
     rmatch (LazyStar (Sym cs)) c (x # s) = (c, x # s) # rmatch (LazyStar (Sym cs)) c s"
  by (subst rmatch.simps) simp

lemma lazy_first: "\<exists>ys. rmatch (LazyStar a) c s = (c, s) # ys"
  by (subst rmatch.simps) simp

text \<open>The lazy run of one character class: shorter runs come first.\<close>

lemma lazy_sym_run:
  assumes "\<forall>x \<in> set k. cset_has cs x"
  shows "\<exists>xs ys. rmatch (LazyStar (Sym cs)) c (k @ t) = xs @ (c, t) # ys \<and>
           (\<forall>(c', s') \<in> set xs. \<exists>k1 k2. k = k1 @ k2 \<and> k2 \<noteq> [] \<and> s' = k2 @ t)"
  using assms
proof (induction k)
  case Nil
  from lazy_first[of "Sym cs" c t] obtain ys where y: "rmatch (LazyStar (Sym cs)) c t = (c, t) # ys"
    by blast
  show ?case by (rule exI[of _ "[]"], rule exI[of _ ys]) (simp add: y)
next
  case (Cons x k)
  from Cons obtain xs ys where d: "rmatch (LazyStar (Sym cs)) c (k @ t) = xs @ (c, t) # ys"
    and l: "\<forall>(c', s') \<in> set xs. \<exists>k1 k2. k = k1 @ k2 \<and> k2 \<noteq> [] \<and> s' = k2 @ t"
    by auto
  from Cons.prems have "cset_has cs x" by simp
  from lazy_unfold_one[OF this, of c "k @ t"] d
  have e: "rmatch (LazyStar (Sym cs)) c ((x # k) @ t) = ((c, (x # k) @ t) # xs) @ (c, t) # ys"
    by simp
  have "\<exists>k1 k2. x # k = k1 @ k2 \<and> k2 \<noteq> [] \<and> s' = k2 @ t" if "(c', s') \<in> set ((c, (x # k) @ t) # xs)"
    for c' s'
  proof (cases "(c', s') = (c, (x # k) @ t)")
    case True
    then have "x # k = [] @ (x # k) \<and> x # k \<noteq> [] \<and> s' = (x # k) @ t" by simp
    then show ?thesis by blast
  next
    case False
    with that have "(c', s') \<in> set xs" by auto
    with l obtain k1 k2 where "k = k1 @ k2" "k2 \<noteq> []" "s' = k2 @ t" by fastforce
    then have "x # k = (x # k1) @ k2 \<and> k2 \<noteq> [] \<and> s' = k2 @ t" by simp
    then show ?thesis by blast
  qed
  then have a: "\<forall>(c', s') \<in> set ((c, (x # k) @ t) # xs). \<exists>k1 k2. x # k = k1 @ k2 \<and> k2 \<noteq> [] \<and> s' = k2 @ t"
    by blast
  show ?case by (rule exI[of _ "(c, (x # k) @ t) # xs"], rule exI[of _ ys]) (use e a in blast)
qed

lemma any_char: "cset_has AnyChar x = (\<not> line_terminator x)"
  by simp

lemma lazy_group_first:
  assumes k: "\<forall>x \<in> set k. \<not> line_terminator x" "CHR ''>'' \<notin> set k"
  shows "\<exists>c'. first (Cat (Group n (LazyStar (Sym AnyChar))) (Str ''/>'')) c (k @ ''/>'' @ t) =
           Some (c', t)"
proof -
  let ?t = "CHR ''/'' # CHR ''>'' # t"
  let ?s = "k @ ?t"
  let ?g = "\<lambda>(c', s'). ((n, take (length ?s - length s') ?s) # c', s')"
  from k(1) have "\<forall>x \<in> set k. cset_has AnyChar x" by simp
  from lazy_sym_run[OF this, of c ?t] obtain xs ys where
    d: "rmatch (LazyStar (Sym AnyChar)) c ?s = xs @ (c, ?t) # ys"
    and l: "\<forall>(c', s') \<in> set xs. \<exists>k1 k2. k = k1 @ k2 \<and> k2 \<noteq> [] \<and> s' = k2 @ ?t"
    by blast
  let ?c1 = "(n, take (length ?s - length ?t) ?s) # c"
  have g: "rmatch (Group n (LazyStar (Sym AnyChar))) c ?s = map ?g xs @ (?c1, ?t) # map ?g ys"
    by (simp add: d)
  have "rmatch (Str ''/>'') c'' s' = []" if "(c'', s') \<in> set (map ?g xs)" for c'' s'
  proof -
    from that obtain c' where "(c', s') \<in> set xs" by auto
    with l obtain k1 k2 where kk: "k = k1 @ k2" "k2 \<noteq> []" "s' = k2 @ ?t" by fastforce
    then obtain y k2' where y: "k2 = y # k2'" by (cases k2) auto
    from kk(1) y k(2) have ng: "CHR ''>'' \<notin> set k2'" by simp
    have "\<not> prefix ''/>'' s'"
    proof (cases k2')
      case Nil
      with kk(3) y show ?thesis by simp
    next
      case (Cons z zs)
      with ng have "z \<noteq> CHR ''>''" by auto
      with kk(3) y Cons show ?thesis by simp
    qed
    then show ?thesis by simp
  qed
  then have f: "\<forall>(c', s') \<in> set (map ?g xs). rmatch (Str ''/>'') c' s' = []" by blast
  have "first (Str ''/>'') ?c1 ?t = Some (?c1, t)" by (simp add: first_def)
  from first_Cat_later[OF g f this] show ?thesis by simp
qed


subsection \<open>What the scanner finds\<close>

lemma exec_after_match:
  assumes "rmatch r [] (x # m @ rest) = []" and "first r [] (m @ rest) = Some (c, rest)"
  shows "exec r (x # m @ rest) = Some ([x], m, c, rest)"
  using exec_after_one[OF assms] by simp

lemma scanner_patterns:
  assumes "plain_name (tagName opts)"
  shows "closed_regexp opts =
           Some (Cat (Str (''<'' @ tagName opts))
                (Cat (Group 1 (Star (Sym AnyChar))) (Str (''/'' @ tagName opts @ ''>''))))"
    and "selfClosed_regexp opts =
           Some (Cat (Str (''<'' @ tagName opts))
                (Cat (Group 1 (LazyStar (Sym AnyChar))) (Str ''/>'')))"
proof -
  from plain_name_facts(2)[OF assms]
  have "set (''<'' @ tagName opts) \<inter> set syntax_chars = {}"
    and "set (''/'' @ tagName opts @ ''>'') \<inter> set syntax_chars = {}"
    by (auto simp: syntax_chars_def)
  then have p: "pattern_text (''<'' @ tagName opts) = Some (''<'' @ tagName opts)"
    and q: "pattern_text (''/'' @ tagName opts @ ''>'') = Some (''/'' @ tagName opts @ ''>'')"
    by (simp_all only: pattern_text_plain)
  show "closed_regexp opts =
           Some (Cat (Str (''<'' @ tagName opts))
                (Cat (Group 1 (Star (Sym AnyChar))) (Str (''/'' @ tagName opts @ ''>''))))"
    unfolding closed_regexp_def p q by simp
  show "selfClosed_regexp opts =
           Some (Cat (Str (''<'' @ tagName opts))
                (Cat (Group 1 (LazyStar (Sym AnyChar))) (Str ''/>'')))"
    unfolding selfClosed_regexp_def p by simp
qed

lemma scan_self_closing:
  assumes n: "plain_name (tagName opts)"
    and R: "\<forall>x \<in> set R. \<not> line_terminator x" "CHR ''>'' \<notin> set R"
    and pre: "plain_text pre" and post: "plain_text post"
  shows "getTags opts (pre @ CHR 0x0A # (''<'' @ tagName opts @ R @ ''/>'') @ post) =
           Some [''<'' @ tagName opts @ R @ ''/>'']"
proof -
  let ?n = "tagName opts"
  let ?tag = "''<'' @ ?n @ R @ ''/>''"
  let ?closed = "Cat (Str (CHR ''<'' # ?n)) (Cat (Group 1 (Star (Sym AnyChar))) (Str (''/'' @ ?n @ ''>'')))"
  let ?self = "Cat (Str (CHR ''<'' # ?n)) (Cat (Group 1 (LazyStar (Sym AnyChar))) (Str ''/>''))"
  have c: "match_all ?closed (pre @ CHR 0x0A # ?tag @ post) = []"
    by (rule match_all_none, rule tag_pattern_none,
        rule no_closing_in_self_closing[OF n R(2) pre post])
  from lazy_group_first[OF R, of 1 "[]" post] obtain c' where
    "first (Cat (Group 1 (LazyStar (Sym AnyChar))) (Str ''/>'')) [] (R @ ''/>'' @ post) = Some (c', post)"
    by auto
  moreover have "first (Str (CHR ''<'' # ?n)) [] (?tag @ post) = Some ([], R @ ''/>'' @ post)"
    by (simp add: first_def)
  ultimately have f: "first ?self [] (?tag @ post) = Some (c', post)" by (rule first_Cat[rotated])
  from pre have "CHR ''<'' \<notin> set (pre @ [CHR 0x0A])" by (simp add: plain_text_def)
  from tag_pattern_skip[OF this f]
  have e: "exec ?self (pre @ CHR 0x0A # ?tag @ post) = Some (pre @ [CHR 0x0A], ?tag, c', post)"
    by simp
  from post have "CHR ''<'' \<notin> set post" by (simp add: plain_text_def)
  then have "exec ?self post = None" by (rule tag_pattern_absent)
  from match_all_one[OF e _ this] have s: "match_all ?self (pre @ CHR 0x0A # ?tag @ post) = [?tag]"
    by simp
  show ?thesis unfolding getTags_def scanner_patterns[OF n] using c s by simp
qed


subsection \<open>A document with one tag\<close>

lemma replace_first_amid:
  assumes "tag \<noteq> []" and "hd tag \<notin> set before"
  shows "replace_first tag p (before @ tag @ rest) =
           before @ getSubstitution p tag before rest @ rest"
proof -
  have "first (Str tag) [] (tag @ rest) = Some ([], rest)" by (simp add: first_def)
  moreover have "rmatch (Str tag) [] (k2 @ tag @ rest) = []" if "before = k1 @ k2" "k2 \<noteq> []" for k1 k2
  proof -
    from that assms have "\<not> prefix tag (k2 @ tag @ rest)" by (cases k2; cases tag) auto
    then show ?thesis by simp
  qed
  ultimately have "exec (Str tag) (before @ tag @ rest) = Some (before, tag, [], rest)"
    by (intro exec_skip)
  then show ?thesis by (simp add: replace_first_def)
qed

lemma one_tag_document:
  assumes f: "format opts content = Some (before @ tag @ rest)"
    and t: "getTags opts (before @ tag @ rest) = Some [tag]"
    and a: "getAttributes tag = Some attributes"
    and h: "tag \<noteq> []" "hd tag \<notin> set before"
  shows "injectHTML opts prettyPrint fs depth content =
           map_option
             (\<lambda>(p, log). (prettyPrint (before @ getSubstitution p tag before rest @ rest), log))
             (getPartial opts prettyPrint fs depth attributes)"
proof (cases "getPartial opts prettyPrint fs depth attributes")
  case None
  then have "getPartials opts prettyPrint fs depth [tag] = None" by (simp add: a)
  then have "getHTML opts prettyPrint fs depth (before @ tag @ rest) = None"
    by (subst getHTML.simps) (simp add: t)
  then show ?thesis by (subst injectHTML.simps) (simp add: f None)
next
  case (Some r)
  obtain p log where r: "r = (p, log)" by (cases r)
  with Some have "getPartials opts prettyPrint fs depth [tag] = Some ([p], log)" by (simp add: a)
  then have "getHTML opts prettyPrint fs depth (before @ tag @ rest) =
      Some (replace_first tag p (before @ tag @ rest), log)"
    by (subst getHTML.simps) (simp add: t)
  then show ?thesis
    by (subst injectHTML.simps) (simp add: f Some r replace_first_amid[OF h])
qed

lemma self_closing_document:
  assumes n: "plain_name (tagName opts)" and w: "well_written items"
    and pre: "plain_text pre" and post: "plain_text post"
  shows "injectHTML opts prettyPrint fs depth (pre @ self_closing_form (tagName opts) items @ post) =
           map_option
             (\<lambda>(p, log). (prettyPrint (collapse pre @ CHR 0x0A #
                  getSubstitution p (self_closing_form (tagName opts) (on_one_line items))
                    (collapse pre @ [CHR 0x0A]) (collapse post) @ collapse post), log))
             (getPartial opts prettyPrint fs depth (map snd items))"
proof -
  let ?R = "concat (map render (on_one_line items))"
  let ?tag = "self_closing_form (tagName opts) (on_one_line items)"
  note f = plain_name_facts[OF n]
  note w' = well_written_on_one_line[OF w]
  note pre' = plain_text_collapse[OF pre]
  note post' = plain_text_collapse[OF post]
  have fo: "format opts (pre @ self_closing_form (tagName opts) items @ post) =
      Some ((collapse pre @ [CHR 0x0A]) @ ?tag @ collapse post)"
    using format_self_closing[OF n w pre post] by simp
  have "getTags opts (collapse pre @ CHR 0x0A # (''<'' @ tagName opts @ ?R @ ''/>'') @ collapse post) =
      Some [''<'' @ tagName opts @ ?R @ ''/>'']"
    by (rule scan_self_closing[OF n rendered_unbroken[OF w] rendered_brackets(2)[OF w'] pre' post'])
  then have t: "getTags opts ((collapse pre @ [CHR 0x0A]) @ ?tag @ collapse post) = Some [?tag]"
    by (simp add: self_closing_form_def)
  have a: "getAttributes ?tag = Some (map snd items)"
    using getAttributes_forms(2)[OF w' f(6), of "[]"] by (simp add: on_one_line_attributes)
  have h: "?tag \<noteq> []" "hd ?tag \<notin> set (collapse pre @ [CHR 0x0A])"
    using pre' by (simp_all add: self_closing_form_def plain_text_def)
  from one_tag_document[OF fo t a h] show ?thesis by simp
qed



lemma self_closing_put_in:
  assumes "plain_name (tagName opts)" and "well_written items"
    and "plain_text pre" and "plain_text post"
  shows "injectHTML opts prettyPrint fs depth (pre @ self_closing_form (tagName opts) items @ post) =
           put_in prettyPrint (collapse pre @ [CHR 0x0A])
             (self_closing_form (tagName opts) (on_one_line items)) (collapse post)
             (getPartial opts prettyPrint fs depth (map snd items))"
  unfolding self_closing_document[OF assms] put_in_def by simp


section \<open>The formatter and a tag on several lines\<close>
















section \<open>The closed and the self-closing form\<close>




text \<open>
  A closed tag without attributes is not found at all: the formatter puts a line break
  after \<^verbatim>\<open><partial>\<close>, which ends in \<^verbatim>\<open>partial>\<close>, and no pattern of the scanner matches
  across a line break. The self-closing tag without attributes is found, and has no
  \<^verbatim>\<open>src\<close>.
\<close>

lemma closed_without_attributes:
  \<open>injectHTML default_options leave fs_hello 1 ''<partial></partial>'' =
     Some ([CHR 0x0A] @ ''<partial>'' @ [CHR 0x0A] @ ''</partial>'' @ [CHR 0x0A], []) \<and>
   injectHTML default_options leave fs_hello 1 ''<partial/>'' = Some ([CHR 0x0A], [missing_src])\<close>
  by code_simp










section \<open>A tag that cannot be resolved, in a document\<close>

text \<open>
  A tag that cannot be resolved, amid text without angle brackets: the document is the
  text around it, with the line break that the formatter put before the tag, and one
  line is logged.
\<close>

lemma plain_attribute_parsed:
  assumes "plain_attribute a"
  shows "key a \<noteq> [] \<and> val a \<noteq> []"
proof -
  from assms have "key a \<noteq> []" and "2 \<le> length (val a)"
    by (simp_all add: plain_attribute_def plain_key_def plain_value_def)
  then show ?thesis by auto
qed

lemma unresolved_tag_amid_text:
  assumes "plain_name (tagName opts)" and "well_written items"
    and "plain_text pre" and "plain_text post"
    and "sourcePath (map snd items) = None \<or>
         (\<exists>p. sourcePath (map snd items) = Some p \<and> fs (basePath opts @ p) = None)"
  shows "injectHTML opts prettyPrint fs depth (pre @ self_closing_form (tagName opts) items @ post) =
           Some (prettyPrint (collapse pre @ CHR 0x0A # collapse post),
                 [complaint opts (map snd items)])"
proof -
  from assms(2) have "\<forall>a \<in> set (map snd items). plain_attribute a"
    by (auto simp: well_written_def)
  then have k: "\<forall>a \<in> set (map snd items). key a \<noteq> []" and v: "\<forall>a \<in> set (map snd items). val a \<noteq> []"
    using plain_attribute_parsed by blast+
  from getPartial_unresolved[OF k v assms(5)]
  have "getPartial opts prettyPrint fs depth (map snd items) =
      Some ([], [complaint opts (map snd items)])" .
  then show ?thesis unfolding self_closing_put_in[OF assms(1-4)] put_in_def by simp
qed

text \<open>
  So does a document with two tags when the partials put in hold no dollar sign: here
  the first tag gives way to its file and the second, whose file does not exist, to
  nothing, with one line logged.
\<close>

lemma failing_tag_beside_plain_partial:
  \<open>injectHTML default_options leave fs_hello 1 ''<partial src="f.html"/><partial src="gone.html"/>'' =
     Some ([CHR 0x0A] @ ''hello'' @ [CHR 0x0A], [''File gone.html does not exist.''])\<close>
  by code_simp

text \<open>
  C2. The same document with \<^verbatim>\<open>'$'\<close> as the contents of f.html. The second tag names a
  file that does not exist, so it is to give way to the empty text, with the first tag
  resolved as it is without it. It stays in the result. \<^verbatim>\<open>getHTML\<close> hands each partial
  to \<^verbatim>\<open>output.replace(tag, partial)\<close> as a replacement template, in which \<^verbatim>\<open>$'\<close> stands for
  the text that follows the match: a copy of the second tag goes in with the first
  partial, and the replacement of the second tag, which takes the first occurrence, takes
  out the copy.
\<close>

theorem failing_tag_stays_in_document:
  \<open>injectHTML default_options leave fs_following 1 ''<partial src="f.html"/><partial src="gone.html"/>'' =
     Some ([CHR 0x0A, CHR 0x27, CHR 0x0A, CHR 0x0A] @ ''<partial src="gone.html"/>'',
           [''File gone.html does not exist.''])\<close>
  by code_simp

end
